theory Spec2Isabelle
  imports
    Main
    "HOL-Library.Word"
    "HOL-Library.Char_ord"
    "HOL-Library.List_Lexorder"
begin

section \<open>Common data: nodes, errors, the storage network\<close>

text \<open>
  \<^verbatim>\<open>pb.Node\<close> as far as the code below reads it: the node id and the transport
  address. A Go slice \<^verbatim>\<open>[]*pb.Node\<close> may hold nil entries, so node lists are lists
  of \<open>node option\<close>. \<^verbatim>\<open>GetId\<close> of a nil node is the empty string (generated getter).
\<close>

record node =
  node_id :: string
  address :: string

fun GetId :: "node option \<Rightarrow> string" where
  "GetId None = []"
| "GetId (Some n) = node_id n"

text \<open>
  Error values. \<open>External\<close> is an error handed back by a collaborator (dialing,
  a piece-store RPC, a reader, the pointer service); the other constructors are the
  errors the modelled functions create themselves (\<open>ErrorNew\<close> is \<^verbatim>\<open>Error.New\<close> with
  its message and the error it formats into it). \<open>Panic\<close> is a Go run-time panic.
\<close>

datatype error =
    NodeCountMismatch int int
  | DuplicatedNodes
  | BelowRepairThreshold int int
  | UploadCancelled "error option"
  | Wrapped error
  | External string
  | Unauthenticated
  | ErrorNew string "error option"
  | Panic string
  | LowerAllocation "64 word" "64 word"
  | CombinedErrors "error list"

text \<open>
  \<^verbatim>\<open>eestream.RedundancyStrategy\<close>: the four counts \<open>(k, r, o, n)\<close>, Go \<^verbatim>\<open>int\<close>s.
\<close>

record redundancy_strategy =
  RequiredCount :: int
  RepairThreshold :: int
  OptimalThreshold :: int
  TotalCount :: int
  ErasureShareSize :: int

text \<open>
  The part of the world the erasure-code client acts on, for one piece id: the node ids
  dialed so far (in the order the model dials them) and the set of node ids that hold
  the piece.
\<close>

record net =
  dialed :: "string list"
  stored :: "string set"

text \<open>
  What the collaborators answer during one call. Each field is the error (or \<open>None\<close>)
  that the corresponding step of the goroutine for a node returns: deriving the piece
  id, dialing, the piece-store \<^verbatim>\<open>Put\<close> and \<^verbatim>\<open>Delete\<close>, draining the reader of a nil
  node. \<open>ctx_done\<close> says whether the caller's context is cancelled when \<^verbatim>\<open>Put\<close>
  returns.
\<close>

record ec_env =
  encode_err :: "error option"
  derive_err :: "string \<Rightarrow> error option"
  dial_err :: "string \<Rightarrow> error option"
  put_err :: "string \<Rightarrow> error option"
  copy_err :: "nat \<Rightarrow> error option"
  del_dial_err :: "string \<Rightarrow> error option"
  delete_err :: "string \<Rightarrow> error option"
  ctx_done :: bool

section \<open>Erasure-code client: \<^verbatim>\<open>pkg/storage/ec/client.go\<close>\<close>

subsection \<open>\<^verbatim>\<open>unique\<close>\<close>

text \<open>
  The loop over the sorted ids: it answers \<open>True\<close> when two neighbours are equal and
  not empty (the source then returns false).
\<close>

fun identical_neighbors :: "string list \<Rightarrow> bool" where
  "identical_neighbors (a # b # rest) =
     (if b \<noteq> [] \<and> b = a then True else identical_neighbors (b # rest))"
| "identical_neighbors _ = False"

definition unique :: "node option list \<Rightarrow> bool" where
  "unique nodes =
     (if length nodes < 2 then True
      else \<not> identical_neighbors (sort (map GetId nodes)))"

subsection \<open>\<^verbatim>\<open>ecClient.Delete\<close>\<close>

text \<open>
  One goroutine of \<^verbatim>\<open>Delete\<close>: a nil node reports no error; otherwise derive the piece
  id, dial, delete. A successful delete removes the piece from the node.
\<close>

definition delete_piece :: "ec_env \<Rightarrow> node option \<Rightarrow> net \<Rightarrow> error option \<times> net" where
  "delete_piece env n s =
     (case n of
        None \<Rightarrow> (None, s)
      | Some nd \<Rightarrow>
          (case derive_err env (node_id nd) of
             Some e \<Rightarrow> (Some e, s)
           | None \<Rightarrow>
               let s1 = s\<lparr>dialed := dialed s @ [node_id nd]\<rparr> in
               (case del_dial_err env (node_id nd) of
                  Some e \<Rightarrow> (Some e, s1)
                | None \<Rightarrow>
                    (case delete_err env (node_id nd) of
                       Some e \<Rightarrow> (Some e, s1)
                     | None \<Rightarrow> (None, s1\<lparr>stored := stored s1 - {node_id nd}\<rparr>)))))"

fun run_deletes :: "ec_env \<Rightarrow> node option list \<Rightarrow> net \<Rightarrow> error option list \<times> net" where
  "run_deletes env [] s = ([], s)"
| "run_deletes env (n # rest) s =
     (let (e, s1) = delete_piece env n s;
          (es, s2) = run_deletes env rest s1
      in (e # es, s2))"

fun collectErrors :: "error option list \<Rightarrow> error list" where
  "collectErrors [] = []"
| "collectErrors (None # rest) = collectErrors rest"
| "collectErrors (Some e # rest) = e # collectErrors rest"

definition ecClient_Delete :: "ec_env \<Rightarrow> node option list \<Rightarrow> net \<Rightarrow> error option \<times> net" where
  "ecClient_Delete env nodes s =
     (let (errs, s1) = run_deletes env nodes s;
          allerrs = collectErrors errs
      in if length allerrs > 0 \<and> length allerrs = length nodes
         then (Some (hd allerrs), s1)
         else (None, s1))"

subsection \<open>\<^verbatim>\<open>ecClient.Put\<close>\<close>

text \<open>
  One goroutine of \<^verbatim>\<open>Put\<close>, for reader \<open>i\<close> and node \<open>n\<close>. A nil node only drains its
  reader. Otherwise: derive the piece id, dial, put. A successful put stores the piece
  on the node.
\<close>

definition put_piece :: "ec_env \<Rightarrow> nat \<Rightarrow> node option \<Rightarrow> net \<Rightarrow> error option \<times> net" where
  "put_piece env i n s =
     (case n of
        None \<Rightarrow> (copy_err env i, s)
      | Some nd \<Rightarrow>
          (case derive_err env (node_id nd) of
             Some e \<Rightarrow> (Some e, s)
           | None \<Rightarrow>
               let s1 = s\<lparr>dialed := dialed s @ [node_id nd]\<rparr> in
               (case dial_err env (node_id nd) of
                  Some e \<Rightarrow> (Some e, s1)
                | None \<Rightarrow>
                    (case put_err env (node_id nd) of
                       Some e \<Rightarrow> (Some e, s1)
                     | None \<Rightarrow> (None, s1\<lparr>stored := insert (node_id nd) (stored s1)\<rparr>)))))"

text \<open>
  The goroutines, one per index, each sending \<^verbatim>\<open>info{i, err}\<close> on the channel. The
  model runs them in index order; the receiving loop below only writes slot \<open>i\<close> for the
  info of index \<open>i\<close>, so its result does not depend on the order of arrival.
\<close>

fun run_puts :: "ec_env \<Rightarrow> (nat \<times> node option) list \<Rightarrow> net \<Rightarrow> (nat \<times> error option) list \<times> net" where
  "run_puts env [] s = ([], s)"
| "run_puts env ((i, n) # rest) s =
     (let (e, s1) = put_piece env i n s;
          (infos, s2) = run_puts env rest s1
      in ((i, e) # infos, s2))"

text \<open>The receiving loop: \<^verbatim>\<open>successfulNodes[info.i] = nodes[info.i]; successfulCount++\<close>.\<close>

fun collect :: "node option list \<Rightarrow> (nat \<times> error option) list \<Rightarrow>
    node option list \<times> int \<Rightarrow> node option list \<times> int" where
  "collect nodes [] acc = acc"
| "collect nodes ((i, e) # rest) (succ, cnt) =
     collect nodes rest
       (if e = None then (succ[i := nodes ! i], cnt + 1) else (succ, cnt))"

text \<open>
  \<^verbatim>\<open>Put\<close> returns the pair \<^verbatim>\<open>(successfulNodes, err)\<close>; the deferred function runs after the
  return values are set and overwrites only \<^verbatim>\<open>err\<close>, and only when the context is done.
\<close>

definition ecClient_Put ::
  "ec_env \<Rightarrow> node option list \<Rightarrow> redundancy_strategy \<Rightarrow> net \<Rightarrow>
     (node option list option \<times> error option) \<times> net" where
  "ecClient_Put env nodes rs s =
     (if int (length nodes) \<noteq> TotalCount rs
      then ((None, Some (NodeCountMismatch (int (length nodes)) (TotalCount rs))), s)
      else if \<not> unique nodes
      then ((None, Some DuplicatedNodes), s)
      else
        (case encode_err env of
           Some e \<Rightarrow> ((None, Some e), s)
         | None \<Rightarrow>
             let (infos, s1) = run_puts env (enumerate 0 nodes) s;
                 (successfulNodes, successfulCount) =
                    collect nodes infos (replicate (length nodes) None, 0);
                 ret = (if successfulCount < RepairThreshold rs
                        then (None, Some (BelowRepairThreshold successfulCount (RepairThreshold rs)))
                        else (Some successfulNodes, None))
             in if ctx_done env
                then (let (derr, s2) = ecClient_Delete env nodes s1
                      in ((fst ret, Some (UploadCancelled derr)), s2))
                else (ret, s1)))"

subsection \<open>Outcomes of the goroutines, for stating properties\<close>

text \<open>
  The error a \<^verbatim>\<open>Put\<close> goroutine sends on the channel depends only on the environment,
  not on the network state; likewise for \<^verbatim>\<open>Delete\<close>. The following functions name these
  outcomes and what follows from them: the indices whose goroutine reported no error, the
  slice \<^verbatim>\<open>successfulNodes\<close>, the ids of the nodes that accepted a piece, of the nodes
  a delete reached, and of the nodes dialed for a put.
\<close>

definition put_outcome :: "ec_env \<Rightarrow> nat \<Rightarrow> node option \<Rightarrow> error option" where
  "put_outcome env i n =
     (case n of
        None \<Rightarrow> copy_err env i
      | Some nd \<Rightarrow>
          (case derive_err env (node_id nd) of
             Some e \<Rightarrow> Some e
           | None \<Rightarrow>
               (case dial_err env (node_id nd) of
                  Some e \<Rightarrow> Some e
                | None \<Rightarrow> put_err env (node_id nd))))"

definition succeeded :: "ec_env \<Rightarrow> node option list \<Rightarrow> nat \<Rightarrow> bool" where
  "succeeded env nodes = (\<lambda>i. put_outcome env i (nodes ! i) = None)"

definition successfulNodes_of :: "ec_env \<Rightarrow> node option list \<Rightarrow> node option list" where
  "successfulNodes_of env nodes =
     map (\<lambda>i. if succeeded env nodes i then nodes ! i else None) [0..<length nodes]"

definition successful_indices :: "ec_env \<Rightarrow> node option list \<Rightarrow> nat list" where
  "successful_indices env nodes = filter (succeeded env nodes) [0..<length nodes]"

definition delete_outcome :: "ec_env \<Rightarrow> node option \<Rightarrow> error option" where
  "delete_outcome env n =
     (case n of
        None \<Rightarrow> None
      | Some nd \<Rightarrow>
          (case derive_err env (node_id nd) of
             Some e \<Rightarrow> Some e
           | None \<Rightarrow>
               (case del_dial_err env (node_id nd) of
                  Some e \<Rightarrow> Some e
                | None \<Rightarrow> delete_err env (node_id nd))))"

definition accepted_ids :: "ec_env \<Rightarrow> node option list \<Rightarrow> string list" where
  "accepted_ids env nodes =
     map (\<lambda>i. GetId (nodes ! i)) (filter (\<lambda>i. nodes ! i \<noteq> None) (successful_indices env nodes))"

definition deleted_ids :: "ec_env \<Rightarrow> node option list \<Rightarrow> string list" where
  "deleted_ids env nodes =
     map GetId (filter (\<lambda>n. n \<noteq> None \<and> delete_outcome env n = None) nodes)"

definition put_dials :: "ec_env \<Rightarrow> node option list \<Rightarrow> string list" where
  "put_dials env nodes =
     map GetId (filter (\<lambda>n. n \<noteq> None \<and> derive_err env (GetId n) = None) nodes)"

section \<open>Pointers: \<^verbatim>\<open>pb.Pointer\<close>\<close>

text \<open>
  The protobuf messages as the code reads and writes them. The \<^verbatim>\<open>int32\<close> fields are
  32-bit words (read as signed); sizes and times are kept as integers.
\<close>

type_synonym byte = "8 word"

datatype pointer_type = INLINE | REMOTE

record remote_piece =
  PieceNum :: "32 word"
  NodeId :: string

record redundancy_scheme =
  MinReq :: "32 word"
  Total :: "32 word"
  RepairThreshold_pb :: "32 word"
  SuccessThreshold :: "32 word"
  ErasureShareSize_pb :: "32 word"

record remote_segment =
  Redundancy :: redundancy_scheme
  PieceId :: string
  RemotePieces :: "remote_piece list"

record pointer =
  Type :: pointer_type
  InlineSegment :: "byte list"
  Remote :: "remote_segment option"
  Size :: int
  CreationDate :: "int option"
  ExpirationDate :: int
  Metadata :: "byte list"

section \<open>Segment store: \<^verbatim>\<open>pkg/storage/segments/store.go\<close>\<close>

record Meta =
  Modified :: "int option"
  Expiration :: int
  Meta_Size :: int
  Data :: "byte list"

definition convertMeta :: "pointer \<Rightarrow> Meta" where
  "convertMeta pr =
     \<lparr>Modified = CreationDate pr, Expiration = ExpirationDate pr,
      Meta_Size = Size pr, Data = Metadata pr\<rparr>"

text \<open>
  The world of a segment upload: the storage network (for the piece id of this upload)
  and the pointer service's key-value contents.
\<close>

record world =
  network :: net
  pdb :: "string \<rightharpoonup> pointer"

text \<open>
  The answers of the segment store's collaborators during one \<^verbatim>\<open>Put\<close>: the timestamp
  conversion, the peek reader, the overlay's \<^verbatim>\<open>Choose\<close>, the fresh piece id, the
  pointer client's \<^verbatim>\<open>SignedMessage\<close>, the erasure-code client's environment, the
  \<^verbatim>\<open>segmentInfo\<close> callback (path and metadata), the pointer client's \<^verbatim>\<open>Put\<close> and
  \<^verbatim>\<open>Get\<close>, and the time the pointer service stamps on a stored pointer.
\<close>

record seg_env =
  timestamp_err :: "error option"
  peek_err :: "error option"
  Choose :: "int \<Rightarrow> error + node option list"
  new_piece_id :: string
  signed_message_err :: "error option"
  ec :: ec_env
  segmentInfo :: "error + (string \<times> byte list)"
  pdb_put_err :: "error option"
  pdb_get_err :: "error option"
  now :: int

text \<open>The loop of \<^verbatim>\<open>makeRemotePointer\<close>: nil nodes are skipped, \<^verbatim>\<open>PieceNum: int32(i)\<close>.\<close>

fun remotePieces_of :: "(nat \<times> node option) list \<Rightarrow> remote_piece list" where
  "remotePieces_of [] = []"
| "remotePieces_of ((i, None) # rest) = remotePieces_of rest"
| "remotePieces_of ((i, Some nd) # rest) =
     \<lparr>PieceNum = word_of_nat i, NodeId = node_id nd\<rparr> # remotePieces_of rest"

definition makeRemotePointer ::
  "redundancy_strategy \<Rightarrow> node option list \<Rightarrow> string \<Rightarrow> int \<Rightarrow> int \<Rightarrow> byte list \<Rightarrow> pointer" where
  "makeRemotePointer rs nodes pieceID readerSize exp metadata =
     \<lparr>Type = REMOTE,
      InlineSegment = [],
      Remote = Some
        \<lparr>Redundancy =
           \<lparr>MinReq = word_of_int (RequiredCount rs),
            Total = word_of_int (TotalCount rs),
            RepairThreshold_pb = word_of_int (RepairThreshold rs),
            SuccessThreshold = word_of_int (OptimalThreshold rs),
            ErasureShareSize_pb = word_of_int (ErasureShareSize rs)\<rparr>,
         PieceId = pieceID,
         RemotePieces = remotePieces_of (enumerate 0 nodes)\<rparr>,
      Size = readerSize,
      CreationDate = None,
      ExpirationDate = exp,
      Metadata = metadata\<rparr>"

text \<open>
  The tail of \<^verbatim>\<open>Put\<close>, shared by both branches: write the pointer, then read the
  segment's metadata back (\<^verbatim>\<open>s.Meta\<close>). The pointer service stamps the creation date.
\<close>

definition put_pointer :: "seg_env \<Rightarrow> string \<Rightarrow> pointer \<Rightarrow> world \<Rightarrow> (error + Meta) \<times> world" where
  "put_pointer env path ptr w =
     (case pdb_put_err env of
        Some e \<Rightarrow> (Inl (Wrapped e), w)
      | None \<Rightarrow>
          let w1 = w\<lparr>pdb := (pdb w)(path \<mapsto> ptr\<lparr>CreationDate := Some (now env)\<rparr>)\<rparr> in
          (case pdb_get_err env of
             Some e \<Rightarrow> (Inl (Wrapped (Wrapped e)), w1)
           | None \<Rightarrow>
               (case pdb w1 path of
                  None \<Rightarrow> (Inl (Wrapped (Wrapped (External ''not found''))), w1)
                | Some pr \<Rightarrow> (Inr (convertMeta pr), w1))))"

definition segmentStore_Put ::
  "seg_env \<Rightarrow> redundancy_strategy \<Rightarrow> int \<Rightarrow> byte list \<Rightarrow> int \<Rightarrow> world \<Rightarrow> (error + Meta) \<times> world" where
  "segmentStore_Put env rs thresholdSize data expiration w =
     (case timestamp_err env of
        Some e \<Rightarrow> (Inl (Wrapped e), w)
      | None \<Rightarrow>
     (case peek_err env of
        Some e \<Rightarrow> (Inl e, w)
      | None \<Rightarrow>
     if \<not> (int (length data) > thresholdSize) then
       (case segmentInfo env of
          Inl e \<Rightarrow> (Inl (Wrapped e), w)
        | Inr (path, metadata) \<Rightarrow>
            put_pointer env path
              \<lparr>Type = INLINE, InlineSegment = data, Remote = None,
               Size = int (length data), CreationDate = None,
               ExpirationDate = expiration, Metadata = metadata\<rparr> w)
     else
       (case Choose env (TotalCount rs) of
          Inl e \<Rightarrow> (Inl (Wrapped e), w)
        | Inr nodes \<Rightarrow>
       (case signed_message_err env of
          Some e \<Rightarrow> (Inl (Wrapped e), w)
        | None \<Rightarrow>
       (case ecClient_Put (ec env) nodes rs (network w) of
          ((_, Some e), n1) \<Rightarrow> (Inl (Wrapped e), w\<lparr>network := n1\<rparr>)
        | ((successfulNodes, None), n1) \<Rightarrow>
            (case segmentInfo env of
               Inl e \<Rightarrow> (Inl (Wrapped e), w\<lparr>network := n1\<rparr>)
             | Inr (path, metadata) \<Rightarrow>
                 put_pointer env path
                   (makeRemotePointer rs (case successfulNodes of None \<Rightarrow> [] | Some ns \<Rightarrow> ns)
                      (new_piece_id env) (int (length data)) expiration metadata)
                   (w\<lparr>network := n1\<rparr>)))))))"

section \<open>Repair checker: \<^verbatim>\<open>pkg/datarepair/checker/checker.go\<close>\<close>

text \<open>
  A value of the pointer store either unmarshals to a pointer or does not; the empty
  value unmarshals to the zero pointer, which has no remote segment. The iterator hands
  the items out in key order; the model takes them as a list in that order.
\<close>

datatype stored_value = Marshalled pointer | Empty | Garbage

record InjuredSegment =
  Path :: string
  LostPieces :: "32 word list"

text \<open>
  The checker's collaborators: whether the pointer service accepts the API key of the
  context, the overlay's \<^verbatim>\<open>BulkLookup\<close> (an error, or one node slot per response, nil
  for a node it does not know), the repair queue's \<^verbatim>\<open>Enqueue\<close>, the configured limit and
  the constant \<^verbatim>\<open>storage.LookupLimit\<close>.
\<close>

record checker_env =
  api_key_valid :: bool
  BulkLookup :: "string list \<Rightarrow> error + node option list"
  Enqueue_err :: "InjuredSegment \<Rightarrow> error option"
  limit :: int
  LookupLimit :: int

text \<open>The loop of \<^verbatim>\<open>offlineNodes\<close>: the indices \<^verbatim>\<open>int32(i)\<close> of the nil responses.\<close>

fun offline_indices :: "(nat \<times> node option) list \<Rightarrow> 32 word list" where
  "offline_indices [] = []"
| "offline_indices ((i, None) # rest) = word_of_nat i # offline_indices rest"
| "offline_indices ((i, Some n) # rest) = offline_indices rest"

definition offlineNodes :: "checker_env \<Rightarrow> string list \<Rightarrow> error + 32 word list" where
  "offlineNodes env nodeIDs =
     (case BulkLookup env nodeIDs of
        Inl e \<Rightarrow> Inl e
      | Inr nodes \<Rightarrow> Inr (offline_indices (enumerate 0 nodes)))"

text \<open>
  The callback's loop \<^verbatim>\<open>for ; lim > 0 && it.Next(&item); lim--\<close> over the items, with the
  repair queue as state. The code reads \<^verbatim>\<open>pointer.Remote.RemotePieces\<close> without looking
  at the pointer's type: a pointer without a remote segment is a nil dereference. The
  comparison is between \<^verbatim>\<open>int32\<close> values.
\<close>

fun check_loop ::
  "checker_env \<Rightarrow> int \<Rightarrow> (string \<times> stored_value) list \<Rightarrow> InjuredSegment list \<Rightarrow>
     error option \<times> InjuredSegment list" where
  "check_loop env lim [] q = (None, q)"
| "check_loop env lim ((key, v) # rest) q =
     (if \<not> lim > 0 then (None, q)
      else
        (case v of
           Garbage \<Rightarrow> (Some (ErrorNew ''error unmarshalling pointer'' None), q)
         | Empty \<Rightarrow> (Some (Panic ''nil pointer dereference''), q)
         | Marshalled pointer \<Rightarrow>
             (case Remote pointer of
                None \<Rightarrow> (Some (Panic ''nil pointer dereference''), q)
              | Some remote \<Rightarrow>
                  let nodeIDs = map NodeId (RemotePieces remote) in
                  (case offlineNodes env nodeIDs of
                     Inl e \<Rightarrow> (Some (ErrorNew ''error getting missing offline nodes'' (Some e)), q)
                   | Inr missingPieces \<Rightarrow>
                       let numHealthy = int (length nodeIDs) - int (length missingPieces) in
                       if (word_of_int numHealthy :: 32 word) <s RepairThreshold_pb (Redundancy remote)
                       then
                         (let seg = \<lparr>Path = key, LostPieces = missingPieces\<rparr> in
                          case Enqueue_err env seg of
                            Some e \<Rightarrow> (Some (ErrorNew ''error adding injured segment to queue'' (Some e)), q)
                          | None \<Rightarrow> check_loop env (lim - 1) rest (q @ [seg]))
                       else check_loop env (lim - 1) rest q))))"

definition IdentifyInjuredSegments ::
  "checker_env \<Rightarrow> (string \<times> stored_value) list \<Rightarrow> InjuredSegment list \<Rightarrow>
     error option \<times> InjuredSegment list" where
  "IdentifyInjuredSegments env kvs q =
     (if \<not> api_key_valid env then (Some Unauthenticated, q)
      else
        let lim = (if limit env \<le> 0 \<or> limit env > LookupLimit env then LookupLimit env
                   else limit env)
        in check_loop env lim kvs q)"

text \<open>
  What the loop enqueues for one scanned item, read off the code: with the lookup
  results \<open>nodes\<close> of the pointer's pieces, the lost pieces are the positions of the
  nil results in the lookup answer (\<^verbatim>\<open>offline = append(offline, int32(i))\<close>), and the
  segment is enqueued when the number of pieces less the number of nil results is below
  the repair threshold.
\<close>

definition missing_positions :: "node option list \<Rightarrow> nat list" where
  "missing_positions nodes = filter (\<lambda>i. nodes ! i = None) [0..<length nodes]"

definition enqueued_entry :: "checker_env \<Rightarrow> string \<times> stored_value \<Rightarrow> InjuredSegment option" where
  "enqueued_entry env item =
     (case item of
        (key, Marshalled pointer) \<Rightarrow>
          (case Remote pointer of
             Some remote \<Rightarrow>
               (case BulkLookup env (map NodeId (RemotePieces remote)) of
                  Inr nodes \<Rightarrow>
                    if int (length (RemotePieces remote)) - int (length (missing_positions nodes))
                         < sint (RepairThreshold_pb (Redundancy remote))
                    then Some \<lparr>Path = key, LostPieces = map word_of_nat (missing_positions nodes)\<rparr>
                    else None
                | Inl e \<Rightarrow> None)
           | None \<Rightarrow> None)
      | (key, Empty) \<Rightarrow> None
      | (key, Garbage) \<Rightarrow> None)"

text \<open>
  What the specification says should be enqueued for one scanned item: the entry
  \<open>{path, indices of the missing pieces}\<close> when \<open>healthy = total - missing\<close> is below the
  repair threshold. A piece is missing when the lookup of its node gives nil, and its
  index is its piece number: the repairer, which consumes the entry, lays the nodes out
  by piece number (\<^verbatim>\<open>nodes[p.PieceNum] = n[i]\<close> in \<^verbatim>\<open>lookupNodes\<close>) and compares
  \<^verbatim>\<open>lostPieces\<close> with that index (\<^verbatim>\<open>Repair\<close> in \<^verbatim>\<open>pkg/storage/segments/store.go\<close>).
\<close>

definition missing_pieces :: "remote_piece list \<Rightarrow> node option list \<Rightarrow> 32 word list" where
  "missing_pieces pieces nodes =
     map (\<lambda>(p, n). PieceNum p) (filter (\<lambda>(p, n). n = None) (zip pieces nodes))"

definition injured_entry :: "checker_env \<Rightarrow> string \<times> stored_value \<Rightarrow> InjuredSegment option" where
  "injured_entry env item =
     (case item of
        (key, Marshalled pointer) \<Rightarrow>
          (case Remote pointer of
             Some remote \<Rightarrow>
               (case BulkLookup env (map NodeId (RemotePieces remote)) of
                  Inr nodes \<Rightarrow>
                    if int (length (RemotePieces remote))
                         - int (length (missing_pieces (RemotePieces remote) nodes))
                         < sint (RepairThreshold_pb (Redundancy remote))
                    then Some \<lparr>Path = key, LostPieces = missing_pieces (RemotePieces remote) nodes\<rparr>
                    else None
                | Inl e \<Rightarrow> None)
           | None \<Rightarrow> None)
      | (key, Empty) \<Rightarrow> None
      | (key, Garbage) \<Rightarrow> None)"

text \<open>
  The pointers whose pieces are numbered by their position in the list, as an upload
  in which every piece was stored writes them.
\<close>

definition dense :: "string \<times> stored_value \<Rightarrow> bool" where
  "dense item =
     (case item of
        (key, Marshalled pointer) \<Rightarrow>
          (case Remote pointer of
             Some remote \<Rightarrow>
               map PieceNum (RemotePieces remote) =
                 map word_of_nat [0..<length (RemotePieces remote)]
           | None \<Rightarrow> False)
      | (key, Empty) \<Rightarrow> False
      | (key, Garbage) \<Rightarrow> False)"

text \<open>The items the loop can handle without an error return or a panic.\<close>

definition scannable :: "checker_env \<Rightarrow> string \<times> stored_value \<Rightarrow> bool" where
  "scannable env item =
     (case item of
        (key, Marshalled pointer) \<Rightarrow>
          (case Remote pointer of
             Some remote \<Rightarrow>
               (case BulkLookup env (map NodeId (RemotePieces remote)) of
                  Inr nodes \<Rightarrow>
                    length nodes = length (RemotePieces remote) \<and>
                    length (RemotePieces remote) < 2 ^ 31 \<and>
                    (case enqueued_entry env item of
                       Some seg \<Rightarrow> Enqueue_err env seg = None
                     | None \<Rightarrow> True)
                | Inl e \<Rightarrow> False)
           | None \<Rightarrow> False)
      | (key, Empty) \<Rightarrow> False
      | (key, Garbage) \<Rightarrow> False)"

section \<open>Connection pool: \<^verbatim>\<open>pkg/node/connection_pool.go\<close>\<close>

text \<open>
  \<^verbatim>\<open>Conn\<close>: the address, the one-shot initializer \<^verbatim>\<open>dial sync.Once\<close> (has it run?),
  the client, the \<^verbatim>\<open>*grpc.ClientConn\<close> pointer (nil until a dial succeeded) and the error
  of the dial. A gRPC connection is identified by the number of the \<^verbatim>\<open>DialNode\<close> call
  that opened it.
\<close>

record Conn =
  c_addr :: string
  c_dial :: bool
  c_client :: "nat option"
  c_grpc :: "nat option"
  c_err :: "error option"

definition NewConn :: "string \<Rightarrow> Conn" where
  "NewConn a = \<lparr>c_addr = a, c_dial = False, c_client = None, c_grpc = None, c_err = None\<rparr>"

text \<open>
  The pool: its map from node id to connection, together with what it has done to the
  outside: the nodes it asked the transport client to dial, in order, and the gRPC
  connections it closed.
\<close>

record ConnectionPool =
  items :: "string \<rightharpoonup> Conn"
  dial_log :: "node list"
  close_log :: "nat list"

text \<open>
  The transport: the error (or none) of the \<open>k\<close>-th call of \<^verbatim>\<open>DialNode\<close>, for the node
  dialed, and the error of closing a connection.
\<close>

record pool_env =
  DialNode :: "nat \<Rightarrow> node \<Rightarrow> error option"
  Close_err :: "nat \<Rightarrow> error option"

definition pool_disconnect :: "pool_env \<Rightarrow> ConnectionPool \<Rightarrow> string \<Rightarrow> error option \<times> ConnectionPool" where
  "pool_disconnect env pool ident =
     (case items pool ident of
        None \<Rightarrow> (None, pool)
      | Some conn \<Rightarrow>
          (case c_grpc conn of
             None \<Rightarrow> (None, pool)
           | Some ptr \<Rightarrow>
               (Close_err env ptr,
                pool\<lparr>items := (items pool)(ident := None), close_log := close_log pool @ [ptr]\<rparr>)))"

definition Disconnect :: "pool_env \<Rightarrow> ConnectionPool \<Rightarrow> string \<Rightarrow> error option \<times> ConnectionPool" where
  "Disconnect env pool ident = pool_disconnect env pool ident"

text \<open>
  \<^verbatim>\<open>Dial\<close>: find or create the entry, run the dial once, answer from the entry. The
  result is the error of the entry, or its client.
\<close>

definition Dial :: "pool_env \<Rightarrow> ConnectionPool \<Rightarrow> node \<Rightarrow> (error + nat option) \<times> ConnectionPool" where
  "Dial env pool n =
     (let ident = node_id n;
          (conn, items1) =
             (case items pool ident of
                None \<Rightarrow> (NewConn (address n), (items pool)(ident \<mapsto> NewConn (address n)))
              | Some c \<Rightarrow> (c, items pool));
          (conn1, pool1) =
             (if c_dial conn then (conn, pool\<lparr>items := items1\<rparr>)
              else
                let k = length (dial_log pool);
                    conn1 = (case DialNode env k n of
                               Some e \<Rightarrow> conn\<lparr>c_dial := True, c_err := Some e\<rparr>
                             | None \<Rightarrow> conn\<lparr>c_dial := True, c_err := None,
                                            c_grpc := Some k, c_client := Some k\<rparr>)
                in (conn1, pool\<lparr>items := items1(ident \<mapsto> conn1), dial_log := dial_log pool @ [n]\<rparr>))
      in (case c_err conn1 of
            Some e \<Rightarrow> (Inl e, pool1)
          | None \<Rightarrow> (Inr (c_client conn1), pool1)))"

definition Init :: "ConnectionPool \<Rightarrow> ConnectionPool" where
  "Init pool = pool\<lparr>items := Map.empty\<rparr>"

text \<open>
  For stating what survives a sequence of calls: the calls that leave entries in place
  or remove single ones, and the entry of a node whose dial failed.
\<close>

datatype pool_op = DialOp node | DisconnectOp string

fun run_ops :: "pool_env \<Rightarrow> ConnectionPool \<Rightarrow> pool_op list \<Rightarrow> ConnectionPool" where
  "run_ops env pool [] = pool"
| "run_ops env pool (DialOp n # ops) = run_ops env (snd (Dial env pool n)) ops"
| "run_ops env pool (DisconnectOp ident # ops) = run_ops env (snd (Disconnect env pool ident)) ops"

definition failed_entry :: "ConnectionPool \<Rightarrow> string \<Rightarrow> error \<Rightarrow> bool" where
  "failed_entry pool ident e =
     (case items pool ident of
        None \<Rightarrow> False
      | Some c \<Rightarrow> c_dial c \<and> c_err c = Some e \<and> c_grpc c = None)"

section \<open>Piece-store server, retrieve: \<^verbatim>\<open>Server.retrieveData\<close>\<close>

subsection \<open>The bandwidth throttle\<close>

text \<open>
  Modelled from the spec: \<^verbatim>\<open>sync2.Throttle\<close> is not among the sources. The spec (section
  5): the producer calls \<^verbatim>\<open>Produce(n)\<close>; the consumer calls \<^verbatim>\<open>ConsumeOrWait(n)\<close>, which
  returns \<open>min(available, n)\<close>; \<^verbatim>\<open>Fail(err)\<close> unblocks both with that error; a consume
  after \<^verbatim>\<open>Fail\<close> always returns the error. A consumer that finds nothing available and
  no failure waits: \<open>ConsumeOrWait\<close> then has no result (\<open>None\<close>).
\<close>

record Throttle =
  available :: int
  errs :: "error list"





subsection \<open>The two loops of \<^verbatim>\<open>retrieveData\<close>\<close>




















section \<open>Pointer service, listing: \<^verbatim>\<open>Server.List\<close>\<close>

subsection \<open>The ordered key-value store and \<^verbatim>\<open>storage.ListV2\<close>\<close>

text \<open>
  Keys are byte strings in lexicographic byte order (the order of \<open>string\<close> here). The
  store's contents are its key-value pairs in ascending key order, each key once.
\<close>

record ListItem =
  Key :: string
  Value :: stored_value
  IsPrefix :: bool

record ListOptions =
  Prefix :: string
  StartAfter :: string
  EndBefore :: string
  Recursive :: bool
  Limit :: int
  IncludeValue :: bool

definition Delimiter :: char where
  "Delimiter = CHR ''/''"

definition has_prefix :: "string \<Rightarrow> string \<Rightarrow> bool" where
  "has_prefix p k = (take (length p) k = p)"

text \<open>
  Modelled from the spec: \<^verbatim>\<open>storage.ListV2\<close> and the store's iteration are not among the
  sources. The spec (section 4.5): scan the store starting at the prefix; emit items in
  ascending byte order; when non-recursive, collapse runs sharing the next
  \<open>/\<close>-bounded component into a single \<open>IsPrefix\<close> entry and skip past that run; honor
  \<open>start_after\<close> (exclusive lower bound) and \<open>end_before\<close> (exclusive upper); return
  \<open>more = true\<close> when the scan was truncated by the limit; listing with a prefix strips
  the prefix from returned paths. An empty bound is no bound. A limit that is not
  positive or exceeds \<^verbatim>\<open>storage.LookupLimit\<close> stands for that constant, as in the
  repository's other scans (the checker above).
\<close>

text \<open>The next \<open>/\<close>-bounded component of a relative path, the delimiter included.\<close>

fun component :: "string \<Rightarrow> string" where
  "component [] = []"
| "component (c # cs) = (if c = Delimiter then [c] else c # component cs)"

definition list_entry :: "string \<Rightarrow> bool \<Rightarrow> string \<times> stored_value \<Rightarrow> ListItem" where
  "list_entry p recursive kv =
     (let rel = drop (length p) (fst kv)
      in if \<not> recursive \<and> Delimiter \<in> set rel
         then \<lparr>Key = component rel, Value = Empty, IsPrefix = True\<rparr>
         else \<lparr>Key = rel, Value = snd kv, IsPrefix = False\<rparr>)"

text \<open>A run of neighbours with the same prefix entry is emitted once and skipped.\<close>

fun collapse :: "ListItem list \<Rightarrow> ListItem list" where
  "collapse (x # y # rest) =
     (if IsPrefix x \<and> IsPrefix y \<and> Key x = Key y then collapse (x # rest)
      else x # collapse (y # rest))"
| "collapse xs = xs"

definition within_bounds :: "ListOptions \<Rightarrow> ListItem \<Rightarrow> bool" where
  "within_bounds opts e \<longleftrightarrow>
     (StartAfter opts = [] \<or> StartAfter opts < Key e) \<and>
     (EndBefore opts = [] \<or> Key e < EndBefore opts)"

text \<open>All the entries the scan would emit without a limit.\<close>

definition scan_entries :: "(string \<times> stored_value) list \<Rightarrow> ListOptions \<Rightarrow> ListItem list" where
  "scan_entries store opts =
     filter (within_bounds opts)
       (collapse (map (list_entry (Prefix opts) (Recursive opts))
          (filter (\<lambda>kv. has_prefix (Prefix opts) (fst kv)) store)))"

definition ListV2 ::
  "int \<Rightarrow> error option \<Rightarrow> (string \<times> stored_value) list \<Rightarrow> ListOptions \<Rightarrow>
     error + (ListItem list \<times> bool)" where
  "ListV2 lookupLimit db_err store opts =
     (case db_err of
        Some e \<Rightarrow> Inl e
      | None \<Rightarrow>
          let lim = (if Limit opts \<le> 0 \<or> Limit opts > lookupLimit then lookupLimit else Limit opts);
              entries = scan_entries store opts;
              result = map (\<lambda>e. if IncludeValue opts then e else e\<lparr>Value := Empty\<rparr>)
                         (take (nat lim) entries)
          in Inr (result, nat lim < length entries))"

subsection \<open>\<^verbatim>\<open>Server.List\<close>, \<^verbatim>\<open>createListItem\<close>, \<^verbatim>\<open>setMetadata\<close>\<close>

record ListRequest =
  req_Prefix :: string
  req_StartAfter :: string
  req_EndBefore :: string
  req_Recursive :: bool
  req_Limit :: "32 word"
  req_MetaFlags :: "32 word"

record ListResponse_Item =
  item_Path :: string
  item_Pointer :: "pointer option"
  item_IsPrefix :: bool

text \<open>
  The flag constants of \<^verbatim>\<open>pkg/storage/meta\<close> (not among the sources) are parameters;
  \<^verbatim>\<open>meta.None\<close> is \<open>0\<close>. The server's pointer message calls the size \<^verbatim>\<open>SegmentSize\<close>.
\<close>

record meta_flags =
  meta_Modified :: "32 word"
  meta_Expiration :: "32 word"
  meta_Size :: "32 word"
  meta_UserDefined :: "32 word"

definition empty_pointer :: pointer where
  "empty_pointer =
     \<lparr>Type = INLINE, InlineSegment = [], Remote = None, Size = 0, CreationDate = None,
      ExpirationDate = 0, Metadata = []\<rparr>"

definition setMetadata :: "meta_flags \<Rightarrow> stored_value \<Rightarrow> 32 word \<Rightarrow> pointer option" where
  "setMetadata mf data metaFlags =
     (if metaFlags = 0 then None
      else
        (case data of
           Empty \<Rightarrow> None
         | Garbage \<Rightarrow> None
         | Marshalled pr \<Rightarrow>
             Some (empty_pointer
               \<lparr>CreationDate := (if and metaFlags (meta_Modified mf) \<noteq> 0 then CreationDate pr else None),
                ExpirationDate := (if and metaFlags (meta_Expiration mf) \<noteq> 0 then ExpirationDate pr else 0),
                Size := (if and metaFlags (meta_Size mf) \<noteq> 0 then Size pr else 0),
                Metadata := (if and metaFlags (meta_UserDefined mf) \<noteq> 0 then Metadata pr else [])\<rparr>)))"

definition createListItem :: "meta_flags \<Rightarrow> ListItem \<Rightarrow> 32 word \<Rightarrow> ListResponse_Item" where
  "createListItem mf rawItem metaFlags =
     (if IsPrefix rawItem
      then \<lparr>item_Path = Key rawItem, item_Pointer = None, item_IsPrefix = True\<rparr>
      else \<lparr>item_Path = Key rawItem, item_Pointer = setMetadata mf (Value rawItem) metaFlags,
            item_IsPrefix = False\<rparr>)"

text \<open>The prefix handed to \<^verbatim>\<open>ListV2\<close>: a non-empty prefix gets a trailing delimiter.\<close>

definition list_prefix :: "string \<Rightarrow> string" where
  "list_prefix p = (if p \<noteq> [] \<and> last p \<noteq> Delimiter then p @ [Delimiter] else p)"

record list_env =
  list_api_key_valid :: bool
  list_db_err :: "error option"
  list_LookupLimit :: int
  list_meta :: meta_flags

definition Server_List ::
  "list_env \<Rightarrow> (string \<times> stored_value) list \<Rightarrow> ListRequest \<Rightarrow>
     error + (ListResponse_Item list \<times> bool)" where
  "Server_List env store req =
     (if \<not> list_api_key_valid env then Inl Unauthenticated
      else
        (case ListV2 (list_LookupLimit env) (list_db_err env) store
                \<lparr>Prefix = list_prefix (req_Prefix req),
                 StartAfter = req_StartAfter req,
                 EndBefore = req_EndBefore req,
                 Recursive = req_Recursive req,
                 Limit = sint (req_Limit req),
                 IncludeValue = (req_MetaFlags req \<noteq> 0)\<rparr> of
           Inl e \<Rightarrow> Inl (ErrorNew ''ListV2'' (Some e))
         | Inr (rawItems, is_more) \<Rightarrow>
             Inr (map (\<lambda>rawItem. createListItem (list_meta env) rawItem (req_MetaFlags req)) rawItems,
                  is_more)))"

text \<open>
  For stating the listing properties: the path under which a key is listed (the prefix
  stripped; when non-recursive, cut after the next delimiter), the keys a request
  selects, and the order of entries before runs are collapsed.
\<close>

definition entry_path :: "string \<Rightarrow> bool \<Rightarrow> string \<Rightarrow> string" where
  "entry_path p recursive k =
     (if recursive then drop (length p) k else component (drop (length p) k))"

definition listed_key :: "ListOptions \<Rightarrow> string \<Rightarrow> bool" where
  "listed_key opts k \<longleftrightarrow>
     has_prefix (Prefix opts) k \<and>
     (StartAfter opts = [] \<or> StartAfter opts < entry_path (Prefix opts) (Recursive opts) k) \<and>
     (EndBefore opts = [] \<or> entry_path (Prefix opts) (Recursive opts) k < EndBefore opts)"

definition run_order :: "ListItem \<Rightarrow> ListItem \<Rightarrow> bool" where
  "run_order a b \<longleftrightarrow> Key a < Key b \<or> (Key a = Key b \<and> IsPrefix a \<and> IsPrefix b)"

section \<open>Path encryption: \<^verbatim>\<open>pkg/encryption\<close>\<close>

text \<open>
  Modelled from the spec: \<^verbatim>\<open>pkg/encryption/path.go\<close> (\<^verbatim>\<open>EncryptPath\<close>, \<^verbatim>\<open>DecryptPath\<close>) and
  \<^verbatim>\<open>storj.SplitPath\<close>, \<^verbatim>\<open>storj.JoinPaths\<close> are not among the sources; only
  \<^verbatim>\<open>pkg/encryption/path_test.go\<close> is. The spec (sections 3 and 4.2): a path is a byte
  sequence with \<open>/\<close> as the hierarchical delimiter; components are independently
  encrypted and joined by \<open>/\<close>; the key of a component is derived by a chain from the
  root key along the path; encrypting the same component under the same parent key
  yields the same ciphertext. \<^verbatim>\<open>TestDeriveKey\<close> fixes the chain: the key at depth \<open>d\<close>,
  derived from the plaintext path, decrypts the encrypted path from its component \<open>d\<close>
  on. The component cipher and the key derivation are parameters (a record of three
  functions over any type of keys).
\<close>

text \<open>
  A path is split at every delimiter: a path without delimiter is one component, the
  empty path is one empty component, and \<open>n\<close> delimiters give \<open>n + 1\<close> components.
\<close>

fun SplitPath :: "string \<Rightarrow> string list" where
  "SplitPath [] = [[]]"
| "SplitPath (c # cs) =
     (if c = CHR ''/'' then [] # SplitPath cs
      else (case SplitPath cs of
              [] \<Rightarrow> [[c]]
            | x # xs \<Rightarrow> (c # x) # xs))"

text \<open>
  Components are joined with one delimiter between neighbours.
\<close>

fun JoinPaths :: "string list \<Rightarrow> string" where
  "JoinPaths [] = []"
| "JoinPaths [x] = x"
| "JoinPaths (x # y # rest) = x @ ''/'' @ JoinPaths (y # rest)"

text \<open>
  The primitives: the component cipher, which can fail, and the derivation of the key
  for the rest of the path from the key and the plaintext component.
\<close>

record 'k path_cipher =
  encryptPathComponent :: "'k \<Rightarrow> string \<Rightarrow> error + string"
  decryptPathComponent :: "'k \<Rightarrow> string \<Rightarrow> error + string"
  DeriveKey :: "'k \<Rightarrow> string \<Rightarrow> error + 'k"

text \<open>
  \<^verbatim>\<open>EncryptPath\<close>: each component is encrypted under the current key, then the key for
  the rest is derived from that key and the plaintext component; the first error is
  returned.
\<close>

fun encrypt_components :: "'k path_cipher \<Rightarrow> 'k \<Rightarrow> string list \<Rightarrow> error + string list" where
  "encrypt_components c key [] = Inr []"
| "encrypt_components c key (part # rest) =
     (case encryptPathComponent c key part of
        Inl e \<Rightarrow> Inl e
      | Inr ct \<Rightarrow>
          (case DeriveKey c key part of
             Inl e \<Rightarrow> Inl e
           | Inr key' \<Rightarrow>
               (case encrypt_components c key' rest of
                  Inl e \<Rightarrow> Inl e
                | Inr cts \<Rightarrow> Inr (ct # cts))))"

definition EncryptPath :: "'k path_cipher \<Rightarrow> string \<Rightarrow> 'k \<Rightarrow> error + string" where
  "EncryptPath c path key =
     (case encrypt_components c key (SplitPath path) of
        Inl e \<Rightarrow> Inl e
      | Inr comps \<Rightarrow> Inr (JoinPaths comps))"

text \<open>
  \<^verbatim>\<open>DecryptPath\<close>: each component is decrypted under the current key, then the key for
  the rest is derived from that key and the decrypted component.
\<close>

fun decrypt_components :: "'k path_cipher \<Rightarrow> 'k \<Rightarrow> string list \<Rightarrow> error + string list" where
  "decrypt_components c key [] = Inr []"
| "decrypt_components c key (ct # rest) =
     (case decryptPathComponent c key ct of
        Inl e \<Rightarrow> Inl e
      | Inr part \<Rightarrow>
          (case DeriveKey c key part of
             Inl e \<Rightarrow> Inl e
           | Inr key' \<Rightarrow>
               (case decrypt_components c key' rest of
                  Inl e \<Rightarrow> Inl e
                | Inr comps \<Rightarrow> Inr (part # comps))))"

definition DecryptPath :: "'k path_cipher \<Rightarrow> string \<Rightarrow> 'k \<Rightarrow> error + string" where
  "DecryptPath c path key =
     (case decrypt_components c key (SplitPath path) of
        Inl e \<Rightarrow> Inl e
      | Inr comps \<Rightarrow> Inr (JoinPaths comps))"

text \<open>
  What the round trip needs of the primitives: the component cipher decrypts what it
  encrypted under the same key, its ciphertexts are free of the delimiter
  (\<^verbatim>\<open>TestDeriveKey\<close> splits the encrypted path and takes component \<open>d\<close> of it for
  component \<open>d\<close> of the path), and deriving a key succeeds.
\<close>

definition cipher_ok :: "'k path_cipher \<Rightarrow> bool" where
  "cipher_ok c \<longleftrightarrow>
     (\<forall>k x. \<exists>y. encryptPathComponent c k x = Inr y \<and> decryptPathComponent c k y = Inr x \<and>
                 CHR ''/'' \<notin> set y) \<and>
     (\<forall>k x. \<exists>k'. DeriveKey c k x = Inr k')"

section \<open>Audit verifier: \<^verbatim>\<open>pkg/audit/verifier.go\<close>\<close>

text \<open>
  \<^verbatim>\<open>audit.share\<close>, a downloaded share or the error of its download, and
  \<^verbatim>\<open>infectious.Share\<close>, the share of the erasure-code library. The data are lists of
  symbols: bytes in the repository, the elements of the code's field in general.
\<close>

record 'a share =
  Error :: "error option"
  PieceNumber :: int
  Data :: "'a list"

record 'a infectious_Share =
  Number :: int
  Share_Data :: "'a list"

text \<open>
  The collaborators. \<^verbatim>\<open>infectious.NewFEC\<close> and \<^verbatim>\<open>FEC.Correct\<close> belong to a library
  outside the repository: they are parameters. \<^verbatim>\<open>Correct\<close> works in place on the slice
  it is given; here it returns the content of that slice after the call, or the error.
  \<^verbatim>\<open>DownloadShares\<close> is the \<^verbatim>\<open>downloader\<close> interface of the verifier; it returns the
  shares and the nodes, or an error.
\<close>

record ('f, 'a) audit_env =
  NewFEC :: "int \<Rightarrow> int \<Rightarrow> error + 'f"
  Correct :: "'f \<Rightarrow> 'a infectious_Share list \<Rightarrow> error + 'a infectious_Share list"
  DownloadShares :: "pointer \<Rightarrow> int \<Rightarrow> error + 'a share list \<times> node option list"

text \<open>
  \<^verbatim>\<open>makeCopies\<close>: a share whose download failed leaves the zero value of
  \<^verbatim>\<open>infectious.Share\<close> at its index; any other share is copied with its piece number.
  The error result is always \<^verbatim>\<open>nil\<close>.
\<close>

definition copy_share :: "'a share \<Rightarrow> 'a infectious_Share" where
  "copy_share original =
     (if Error original \<noteq> None then \<lparr>Number = 0, Share_Data = []\<rparr>
      else \<lparr>Number = PieceNumber original, Share_Data = Data original\<rparr>)"

definition makeCopies :: "'a share list \<Rightarrow> error + 'a infectious_Share list" where
  "makeCopies originals = Inr (map copy_share originals)"

text \<open>
  The loop of \<^verbatim>\<open>auditShares\<close> over the corrected copies:
  \<^verbatim>\<open>if !bytes.Equal(originals[i].Data, share.Data) { pieceNums = append(pieceNums, share.Number) }\<close>.
  \<^verbatim>\<open>bytes.Equal\<close> takes a nil slice and an empty slice as equal, as equality of lists
  does. An index beyond the originals is a run-time panic.
\<close>

fun altered :: "'a share list \<Rightarrow> 'a infectious_Share list \<Rightarrow> error + int list" where
  "altered originals [] = Inr []"
| "altered [] (c # copies) = Inl (Panic ''index out of range'')"
| "altered (original # originals) (c # copies) =
     (case altered originals copies of
        Inl e \<Rightarrow> Inl e
      | Inr pieceNums \<Rightarrow>
          Inr (if Data original \<noteq> Share_Data c then Number c # pieceNums else pieceNums))"

definition auditShares ::
  "('f, 'a) audit_env \<Rightarrow> int \<Rightarrow> int \<Rightarrow> 'a share list \<Rightarrow> error + int list" where
  "auditShares env required total' originals =
     (case NewFEC env required total' of
        Inl e \<Rightarrow> Inl e
      | Inr f \<Rightarrow>
          (case makeCopies originals of
             Inl e \<Rightarrow> Inl e
           | Inr copies \<Rightarrow>
               (case Correct env f copies of
                  Inl e \<Rightarrow> Inl e
                | Inr corrected \<Rightarrow> altered originals corrected)))"

text \<open>
  \<^verbatim>\<open>nodes[i].GetId()\<close>: an index out of range is a run-time panic, the id of a nil
  node is empty. \<open>ids_at\<close> is the loop that appends these ids for a list of indices.
\<close>

definition node_at :: "node option list \<Rightarrow> int \<Rightarrow> error + string" where
  "node_at nodes i =
     (if 0 \<le> i \<and> i < int (length nodes) then Inr (GetId (nodes ! nat i))
      else Inl (Panic ''index out of range''))"

fun ids_at :: "node option list \<Rightarrow> int list \<Rightarrow> error + string list" where
  "ids_at nodes [] = Inr []"
| "ids_at nodes (i # rest) =
     (case node_at nodes i of
        Inl e \<Rightarrow> Inl e
      | Inr x \<Rightarrow> (case ids_at nodes rest of Inl e \<Rightarrow> Inl e | Inr xs \<Rightarrow> Inr (x # xs)))"

definition getSuccessNodes :: "node option list \<Rightarrow> string list \<Rightarrow> string list \<Rightarrow> string list" where
  "getSuccessNodes nodes failed_nodes offline_nodes =
     map GetId (filter (\<lambda>n. GetId n \<notin> set failed_nodes \<union> set offline_nodes) nodes)"

text \<open>
  \<^verbatim>\<open>verify\<close>. The functions that turn the three lists of node ids into the records for
  the statistics (\<^verbatim>\<open>setOfflineStatus\<close>, \<^verbatim>\<open>setAuditFailStatus\<close>, \<^verbatim>\<open>setSuccessStatus\<close>) are
  not among the sources; the result here is the three lists that
  \<^verbatim>\<open>setVerifiedNodes\<close> receives. \<^verbatim>\<open>GetMinReq\<close> and \<^verbatim>\<open>GetTotal\<close> are \<^verbatim>\<open>int32\<close>, converted
  to \<^verbatim>\<open>int\<close>.
\<close>

record verified =
  offline :: "string list"
  failed :: "string list"
  success :: "string list"

definition verify :: "('f, 'a) audit_env \<Rightarrow> int \<Rightarrow> pointer \<Rightarrow> error + verified" where
  "verify env stripeIndex ptr =
     (case DownloadShares env ptr stripeIndex of
        Inl e \<Rightarrow> Inl e
      | Inr (shares, nodes) \<Rightarrow>
          (case ids_at nodes (map PieceNumber (filter (\<lambda>s. Error s \<noteq> None) shares)) of
             Inl e \<Rightarrow> Inl e
           | Inr offline_nodes \<Rightarrow>
               (case Remote ptr of
                  None \<Rightarrow> Inl (Panic ''nil pointer dereference'')
                | Some seg \<Rightarrow>
                    (case auditShares env (sint (MinReq (Redundancy seg)))
                            (sint (Total (Redundancy seg))) shares of
                       Inl e \<Rightarrow> Inl e
                     | Inr pieceNums \<Rightarrow>
                         (case ids_at nodes pieceNums of
                            Inl e \<Rightarrow> Inl e
                          | Inr failed_nodes \<Rightarrow>
                              Inr \<lparr>offline = offline_nodes, failed = failed_nodes,
                                   success = getSuccessNodes nodes failed_nodes offline_nodes\<rparr>)))))"

section \<open>Erasure scheme: \<^verbatim>\<open>pkg/eestream\<close>\<close>

text \<open>
  Modelled from the spec: the erasure scheme of \<^verbatim>\<open>pkg/eestream\<close> (\<^verbatim>\<open>NewRSScheme\<close>,
  \<^verbatim>\<open>EncodeReader\<close>, \<^verbatim>\<open>DecodeReaders\<close>) and the Reed-Solomon library it wraps are not among
  the sources; only \<^verbatim>\<open>pkg/eestream/rs_test.go\<close> is. The spec (sections 3 and 4.1): a fixed
  Reed-Solomon code over GF(2^8) with parameters \<open>(k, n)\<close>, \<open>n \<ge> k \<ge> 1\<close>; the share size
  \<open>s\<close> is fixed per scheme and \<open>StripeSize = k \<sqdot> s\<close>; \<open>Encode\<close> takes a stripe of \<open>k \<sqdot> s\<close>
  bytes to \<open>n\<close> shares of \<open>s\<close> bytes, indexed \<open>0..n-1\<close>, share \<open>i\<close> depending on the stripe
  and \<open>i\<close>; \<open>Decode\<close> takes a map from index to share with at least \<open>k\<close> distinct
  entries to the stripe, and fails with \<open>InsufficientShares\<close> when it has fewer. The piece
  of index \<open>i\<close> holds the shares of index \<open>i\<close> of the successive stripes, the share of
  stripe \<open>t\<close> at offset \<open>t \<sqdot> s\<close> (section 4.8; \<^verbatim>\<open>getShare\<close> in \<^verbatim>\<open>pkg/audit/verifier.go\<close>
  reads it there).

  The arithmetic of GF(2^8) is a parameter: the symbols are the elements of any field,
  and a scheme carries, besides \<open>k\<close> and \<open>s\<close>, the \<open>n\<close> points of the field at which the
  code is evaluated, one per share index.
\<close>

record 'a rsScheme =
  es_required :: nat
  es_points :: "'a list"
  es_shareSize :: nat

definition TotalCount_es :: "'a rsScheme \<Rightarrow> nat" where
  "TotalCount_es es = length (es_points es)"

definition StripeSize :: "'a rsScheme \<Rightarrow> nat" where
  "StripeSize es = es_required es * es_shareSize es"

text \<open>
  The polynomial of least degree through a list of points \<open>(x, y)\<close> with distinct \<open>x\<close>,
  in Lagrange's form: the sum over the points of \<open>y\<close> times the product of
  \<open>(X - x') / (x - x')\<close> over the other points' \<open>x'\<close>.
\<close>

definition basis :: "'a::field list \<Rightarrow> 'a \<Rightarrow> 'a \<Rightarrow> 'a" where
  "basis xs xm x = prod_list (map (\<lambda>xl. (x - xl) / (xm - xl)) (filter (\<lambda>xl. xl \<noteq> xm) xs))"

definition interpolate :: "('a::field \<times> 'a) list \<Rightarrow> 'a \<Rightarrow> 'a" where
  "interpolate pts x = sum_list (map (\<lambda>(xm, ym). ym * basis (map fst pts) xm x) pts)"

text \<open>
  \<open>Encode\<close>. A stripe is \<open>k\<close> blocks of \<open>s\<close> symbols. For each position \<open>j\<close> in a block,
  the symbols at \<open>j\<close> of the \<open>k\<close> blocks are the values at the first \<open>k\<close> points of a
  polynomial of degree below \<open>k\<close>, the codeword of position \<open>j\<close>; symbol \<open>j\<close> of share
  \<open>i\<close> is its value at point \<open>i\<close>. An input that is not a stripe is an error.
\<close>

definition codeword :: "'a::field rsScheme \<Rightarrow> 'a list \<Rightarrow> nat \<Rightarrow> 'a \<Rightarrow> 'a" where
  "codeword es stripe j =
     interpolate (map (\<lambda>m. (es_points es ! m, stripe ! (m * es_shareSize es + j)))
                    [0..<es_required es])"

definition encode_stripe :: "'a::field rsScheme \<Rightarrow> 'a list \<Rightarrow> 'a list list" where
  "encode_stripe es stripe =
     map (\<lambda>i. map (\<lambda>j. codeword es stripe j (es_points es ! i)) [0..<es_shareSize es])
       [0..<TotalCount_es es]"

definition Encode :: "'a::field rsScheme \<Rightarrow> 'a list \<Rightarrow> error + 'a list list" where
  "Encode es stripe =
     (if length stripe \<noteq> StripeSize es
      then Inl (ErrorNew ''input is not a stripe'' None)
      else Inr (encode_stripe es stripe))"

text \<open>
  \<open>Decode\<close>. The map from index to share is a list of pairs with distinct indices. With
  fewer than \<open>k\<close> entries the result is \<open>InsufficientShares\<close>. Otherwise the \<open>k\<close> shares of
  least index are used (a map has no order of its own): they must have an index below
  \<open>n\<close> and \<open>s\<close> symbols; symbol \<open>j\<close> of block \<open>b\<close> of the stripe is the value at point \<open>b\<close>
  of the polynomial through the symbols at \<open>j\<close> of these shares.
\<close>

definition valid_share :: "'a rsScheme \<Rightarrow> nat \<times> 'a list \<Rightarrow> bool" where
  "valid_share es = (\<lambda>(i, sh). i < TotalCount_es es \<and> length sh = es_shareSize es)"

definition decode_stripe :: "'a::field rsScheme \<Rightarrow> (nat \<times> 'a list) list \<Rightarrow> 'a list" where
  "decode_stripe es chosen =
     concat (map (\<lambda>b. map (\<lambda>j. interpolate (map (\<lambda>(i, sh). (es_points es ! i, sh ! j)) chosen)
                                      (es_points es ! b))
                         [0..<es_shareSize es])
               [0..<es_required es])"

definition Decode :: "'a::field rsScheme \<Rightarrow> (nat \<times> 'a list) list \<Rightarrow> error + 'a list" where
  "Decode es shares =
     (let chosen = take (es_required es) (sort_key fst shares)
      in if length shares < es_required es
         then Inl (ErrorNew ''insufficient shares'' None)
         else if \<not> list_all (valid_share es) chosen
         then Inl (ErrorNew ''invalid share'' None)
         else Inr (decode_stripe es chosen))"

text \<open>The results of a sequence of steps, or the first error.\<close>

fun all_results :: "(error + 'b) list \<Rightarrow> error + 'b list" where
  "all_results [] = Inr []"
| "all_results (Inl e # rest) = Inl e"
| "all_results (Inr x # rest) =
     (case all_results rest of Inl e \<Rightarrow> Inl e | Inr xs \<Rightarrow> Inr (x # xs))"

text \<open>
  \<^verbatim>\<open>EncodeReader\<close>, on a stream read to its end: the stream is cut into stripes, each
  stripe is encoded, and piece \<open>i\<close> is the shares of index \<open>i\<close> in the order of the
  stripes. A stream that ends inside a stripe is an error (the callers pad).
\<close>

definition stripes_of :: "nat \<Rightarrow> 'a list \<Rightarrow> 'a list list" where
  "stripes_of w data = map (\<lambda>t. take w (drop (t * w) data)) [0..<length data div w]"

definition EncodeReader :: "'a::field rsScheme \<Rightarrow> 'a list \<Rightarrow> error + 'a list list" where
  "EncodeReader es data =
     (if length data mod StripeSize es \<noteq> 0
      then Inl (ErrorNew ''unexpected EOF'' None)
      else case all_results (map (Encode es) (stripes_of (StripeSize es) data)) of
             Inl e \<Rightarrow> Inl e
           | Inr encoded \<Rightarrow>
               Inr (map (\<lambda>i. concat (map (\<lambda>shares. shares ! i) encoded)) [0..<TotalCount_es es]))"

text \<open>
  \<^verbatim>\<open>DecodeReaders\<close>, on a map from index to piece and the expected size of the stream:
  stripe \<open>t\<close> is decoded from the shares at offset \<open>t \<sqdot> s\<close> of the pieces, for every stripe
  of the expected size. A piece that ends early gives a short share, which is invalid.
\<close>

definition shares_at :: "nat \<Rightarrow> nat \<Rightarrow> (nat \<times> 'a list) list \<Rightarrow> (nat \<times> 'a list) list" where
  "shares_at s t pieces = map (\<lambda>(i, piece). (i, take s (drop (t * s) piece))) pieces"

definition DecodeReaders ::
  "'a::field rsScheme \<Rightarrow> (nat \<times> 'a list) list \<Rightarrow> nat \<Rightarrow> error + 'a list" where
  "DecodeReaders es pieces expectedSize =
     (if expectedSize mod StripeSize es \<noteq> 0
      then Inl (ErrorNew ''expected size not a multiple of the stripe size'' None)
      else case all_results (map (\<lambda>t. Decode es (shares_at (es_shareSize es) t pieces))
                               [0..<expectedSize div StripeSize es]) of
             Inl e \<Rightarrow> Inl e
           | Inr stripes \<Rightarrow> Inr (concat stripes))"

text \<open>
  For the proofs: polynomial functions given by a list of coefficients (lowest degree
  first), the sum of two such lists, and the functions given by at most \<open>n\<close>
  coefficients.
\<close>

fun peval :: "'a::field list \<Rightarrow> 'a \<Rightarrow> 'a" where
  "peval [] x = 0"
| "peval (c # cs) x = c + x * peval cs x"

fun padd :: "'a::field list \<Rightarrow> 'a list \<Rightarrow> 'a list" where
  "padd [] ds = ds"
| "padd cs [] = cs"
| "padd (c # cs) (d # ds) = (c + d) # padd cs ds"

definition is_poly :: "nat \<Rightarrow> ('a::field \<Rightarrow> 'a) \<Rightarrow> bool" where
  "is_poly n f \<longleftrightarrow> (\<exists>cs. length cs \<le> n \<and> (\<forall>x. f x = peval cs x))"

section \<open>The erasure scheme's \<^verbatim>\<open>Correct\<close>, for the audit\<close>

text \<open>
  Modelled from the spec: \<^verbatim>\<open>NewFEC\<close> and \<^verbatim>\<open>Correct\<close> belong to the Reed-Solomon library,
  which is not among the sources. The spec (sections 4.1 and 8): the parameters are
  \<open>(k, n)\<close> with \<open>n \<ge> k \<ge> 1\<close>; \<open>Correct\<close> takes the shares ordered by index, some blank,
  to the reconstructed shares; only the shares that are not blank contribute; the
  output replaces blanks and may overwrite corrupted entries; \<open>Correct\<close> reproduces the
  original share set when at least \<open>k\<close> provided shares are uncorrupted, and otherwise
  returns \<open>InsufficientShares\<close>; a share whose decoded re-encoding disagrees with its
  provided content is the mutated one.

  Here a share is blank when it has no data (the zero value that \<^verbatim>\<open>makeCopies\<close> leaves).
  The provided shares must have distinct numbers below \<open>n\<close> and one size; with fewer
  than \<open>k\<close> of them the result is \<open>InsufficientShares\<close>. Every choice of \<open>k\<close> provided
  shares decodes to a stripe, a candidate; the stripe taken for the original is the
  candidate whose encoding agrees with the most provided shares (the first such), so
  that the shares it disagrees with are the corrupted ones. Every share of the output
  has the data of the encoding at its number: a blank keeps its number and gets that
  share's data. The shares stay in the order given.
\<close>

definition NewFEC_over :: "'a list \<Rightarrow> int \<Rightarrow> int \<Rightarrow> error + 'a rsScheme" where
  "NewFEC_over points k n =
     (if 1 \<le> k \<and> k \<le> n \<and> n \<le> int (length points)
      then Inr \<lparr>es_required = nat k, es_points = take (nat n) points, es_shareSize = 0\<rparr>
      else Inl (ErrorNew ''invalid parameters'' None))"

definition provided :: "'a infectious_Share list \<Rightarrow> (nat \<times> 'a list) list" where
  "provided shares =
     map (\<lambda>c. (nat (Number c), Share_Data c)) (filter (\<lambda>c. Share_Data c \<noteq> []) shares)"

definition agreement :: "'a::field rsScheme \<Rightarrow> (nat \<times> 'a list) list \<Rightarrow> 'a list \<Rightarrow> nat" where
  "agreement es prov stripe =
     length (filter (\<lambda>(i, sh). encode_stripe es stripe ! i = sh) prov)"

definition candidates :: "'a::field rsScheme \<Rightarrow> (nat \<times> 'a list) list \<Rightarrow> 'a list list" where
  "candidates es prov =
     map (decode_stripe es) (filter (\<lambda>sub. length sub = es_required es) (subseqs prov))"

fun most_agreeing :: "('b \<Rightarrow> nat) \<Rightarrow> 'b \<Rightarrow> 'b list \<Rightarrow> 'b" where
  "most_agreeing f best [] = best"
| "most_agreeing f best (x # xs) = most_agreeing f (if f best < f x then x else best) xs"

fun original_stripe :: "('b \<Rightarrow> nat) \<Rightarrow> 'b list \<Rightarrow> 'b option" where
  "original_stripe f [] = None"
| "original_stripe f (c # cs) = Some (most_agreeing f c cs)"

definition reconstructed :: "'a list list \<Rightarrow> 'a infectious_Share \<Rightarrow> 'a infectious_Share" where
  "reconstructed encoded c =
     (if nat (Number c) < length encoded then c\<lparr>Share_Data := encoded ! nat (Number c)\<rparr> else c)"

fun reconstruct ::
  "'a::field rsScheme \<Rightarrow> 'a infectious_Share list \<Rightarrow> 'a list option \<Rightarrow>
     error + 'a infectious_Share list" where
  "reconstruct es shares None = Inl (ErrorNew ''insufficient shares'' None)"
| "reconstruct es shares (Some stripe) = Inr (map (reconstructed (encode_stripe es stripe)) shares)"

fun share_size :: "(nat \<times> 'a list) list \<Rightarrow> nat" where
  "share_size [] = 0"
| "share_size ((i, sh) # rest) = length sh"

definition correct_provided ::
  "'a::field rsScheme \<Rightarrow> 'a infectious_Share list \<Rightarrow> (nat \<times> 'a list) list \<Rightarrow>
     error + 'a infectious_Share list" where
  "correct_provided es shares prov =
     (if list_all (\<lambda>c. 0 \<le> Number c) shares \<and> list_all (valid_share es) prov \<and>
         distinct (map fst prov)
      then reconstruct es shares (original_stripe (agreement es prov) (candidates es prov))
      else Inl (ErrorNew ''invalid share'' None))"

definition FEC_Correct ::
  "'a::field rsScheme \<Rightarrow> 'a infectious_Share list \<Rightarrow> error + 'a infectious_Share list" where
  "FEC_Correct fc shares =
     correct_provided (fc\<lparr>es_shareSize := share_size (provided shares)\<rparr>) shares (provided shares)"

section \<open>Concrete inputs used by the closed instances below\<close>

definition mk_node :: "string \<Rightarrow> node option" where
  "mk_node i = Some \<lparr>node_id = i, address = []\<rparr>"

definition quiet_env :: ec_env where
  "quiet_env = \<lparr>encode_err = None, derive_err = (\<lambda>_. None), dial_err = (\<lambda>_. None),
     put_err = (\<lambda>_. None), copy_err = (\<lambda>_. None), del_dial_err = (\<lambda>_. None),
     delete_err = (\<lambda>_. None), ctx_done = False\<rparr>"

definition empty_net :: net where
  "empty_net = \<lparr>dialed = [], stored = {}\<rparr>"

definition rs_2_3_3_4 :: redundancy_strategy where
  "rs_2_3_3_4 = \<lparr>RequiredCount = 2, RepairThreshold = 3, OptimalThreshold = 3, TotalCount = 4,
     ErasureShareSize = 1024\<rparr>"


definition four_nodes :: "node option list" where
  "four_nodes = [mk_node ''n0'', mk_node ''n1'', mk_node ''n2'', mk_node ''n3'']"

definition put_fails :: "bool \<Rightarrow> string list \<Rightarrow> ec_env" where
  "put_fails cancelled ids =
     quiet_env\<lparr>put_err := (\<lambda>i. if i \<in> set ids then Some (External ''put failed'') else None),
               ctx_done := cancelled\<rparr>"

definition upload_env :: "ec_env \<Rightarrow> seg_env" where
  "upload_env e =
     \<lparr>timestamp_err = None, peek_err = None, Choose = (\<lambda>_. Inr four_nodes),
      new_piece_id = ''piece'', signed_message_err = None, ec = e,
      segmentInfo = Inr (''bucket/object'', []), pdb_put_err = None, pdb_get_err = None,
      now = 0\<rparr>"

definition empty_world :: world where
  "empty_world = \<lparr>network = empty_net, pdb = Map.empty\<rparr>"

definition pointer_write_fails :: seg_env where
  "pointer_write_fails = (upload_env quiet_env)\<lparr>pdb_put_err := Some (External ''pointer write failed'')\<rparr>"

definition online_overlay :: "string list \<Rightarrow> checker_env" where
  "online_overlay online =
     \<lparr>api_key_valid = True,
      BulkLookup = (\<lambda>ids. Inr (map (\<lambda>i. if i \<in> set online then mk_node i else None) ids)),
      Enqueue_err = (\<lambda>_. None), limit = 0, LookupLimit = 1000\<rparr>"

definition stored_pointer :: "int \<Rightarrow> stored_value" where
  "stored_pointer r =
     Marshalled (makeRemotePointer (rs_2_3_3_4\<lparr>RepairThreshold := r\<rparr>) four_nodes ''piece'' 3 0 [])"

definition sparse_pointer :: "int \<Rightarrow> stored_value" where
  "sparse_pointer r =
     Marshalled (makeRemotePointer (rs_2_3_3_4\<lparr>RepairThreshold := r\<rparr>) (four_nodes[1 := None])
                   ''piece'' 3 0 [])"

definition flaky_transport :: pool_env where
  "flaky_transport =
     \<lparr>DialNode = (\<lambda>k n. if k = 0 then Some (External ''connection refused'') else None),
      Close_err = (\<lambda>_. None)\<rparr>"

definition empty_pool :: ConnectionPool where
  "empty_pool = \<lparr>items = Map.empty, dial_log = [], close_log = []\<rparr>"

definition node_a :: node where
  "node_a = \<lparr>node_id = ''a'', address = ''10.0.0.1:7777''\<rparr>"


definition kv_put :: "string \<Rightarrow> stored_value \<Rightarrow> (string \<times> stored_value) list \<Rightarrow> (string \<times> stored_value) list" where
  "kv_put k v store = insort_key fst (k, v) (filter (\<lambda>kv. fst kv \<noteq> k) store)"

definition PutAll :: "(string \<times> stored_value) list \<Rightarrow> (string \<times> stored_value) list \<Rightarrow> (string \<times> stored_value) list" where
  "PutAll kvs store = fold (\<lambda>kv. kv_put (fst kv) (snd kv)) kvs store"

definition musik :: string where
  "musik = [CHR ''m'', CHR 0xC3, CHR 0xBC, CHR ''s'', CHR ''i'', CHR ''c'']"

definition song :: "char \<Rightarrow> string" where
  "song c = [CHR ''s'', CHR 0xC3, CHR 0xB6, CHR ''n'', CHR ''g'', c] @ ''.mp3''"

definition sample :: string where
  "sample = ''sample.'' @ [CHR 0xF0, CHR 0x9F, CHR 0x98, CHR 0xB6]"

definition video :: string where
  "video = [CHR 0xE3, CHR 0x83, CHR 0x93, CHR 0xE3, CHR 0x83, CHR 0x87, CHR 0xE3, CHR 0x82, CHR 0xAA]"

definition test_pointer :: stored_value where
  "test_pointer = Marshalled (empty_pointer\<lparr>CreationDate := Some 1\<rparr>)"

definition test_store :: "(string \<times> stored_value) list" where
  "test_store = PutAll
     [(sample, test_pointer),
      (musik, test_pointer),
      (musik @ ''/'' @ song CHR ''1'', test_pointer),
      (musik @ ''/'' @ song CHR ''2'', test_pointer),
      (musik @ ''/album/'' @ song CHR ''3'', test_pointer),
      (musik @ ''/'' @ song CHR ''4'', test_pointer),
      (video @ ''/movie.mkv'', test_pointer)] []"

definition test_env :: list_env where
  "test_env = \<lparr>list_api_key_valid = True, list_db_err = None, list_LookupLimit = 1000,
     list_meta = \<lparr>meta_Modified = 1, meta_Expiration = 2, meta_Size = 4, meta_UserDefined = 16\<rparr>\<rparr>"

definition request :: ListRequest where
  "request = \<lparr>req_Prefix = [], req_StartAfter = [], req_EndBefore = [], req_Recursive = False,
     req_Limit = 0, req_MetaFlags = 0\<rparr>"

definition listing :: "error + (ListResponse_Item list \<times> bool) \<Rightarrow> ((string \<times> bool) list \<times> bool) option" where
  "listing r = (case r of Inl e \<Rightarrow> None
                | Inr (its, m) \<Rightarrow> Some (map (\<lambda>it. (item_Path it, item_IsPrefix it)) its, m))"

definition encode_char :: "char \<Rightarrow> string" where
  "encode_char c = [char_of (97 + (of_char c :: nat) div 16), char_of (97 + (of_char c :: nat) mod 16)]"

fun decode_chars :: "string \<Rightarrow> string" where
  "decode_chars (a # b # rest) =
     char_of (((of_char a :: nat) - 97) * 16 + ((of_char b :: nat) - 97)) # decode_chars rest"
| "decode_chars _ = []"

definition toy_cipher :: "string path_cipher" where
  "toy_cipher =
     \<lparr>encryptPathComponent = (\<lambda>k x. Inr (concat (map encode_char (k @ x)))),
      decryptPathComponent = (\<lambda>k y. if take (length k) (decode_chars y) = k
                                     then Inr (drop (length k) (decode_chars y))
                                     else Inl (External ''message authentication failed'')),
      DeriveKey = (\<lambda>k x. Inr (k @ ''/'' @ x))\<rparr>"

text \<open>
  A field for the closed instances of the erasure scheme: the integers modulo 5, with
  the inverse as the third power.
\<close>

datatype gf5 = F0 | F1 | F2 | F3 | F4

fun gf5_val :: "gf5 \<Rightarrow> nat" where
  "gf5_val F0 = 0"
| "gf5_val F1 = 1"
| "gf5_val F2 = 2"
| "gf5_val F3 = 3"
| "gf5_val F4 = 4"

definition gf5_of :: "nat \<Rightarrow> gf5" where
  "gf5_of n = [F0, F1, F2, F3, F4] ! (n mod 5)"

instantiation gf5 :: field
begin

definition zero_gf5 :: gf5 where "zero_gf5 = F0"

definition one_gf5 :: gf5 where "one_gf5 = F1"

definition plus_gf5 :: "gf5 \<Rightarrow> gf5 \<Rightarrow> gf5" where
  "plus_gf5 a b = gf5_of (gf5_val a + gf5_val b)"

definition uminus_gf5 :: "gf5 \<Rightarrow> gf5" where
  "uminus_gf5 a = gf5_of (5 - gf5_val a)"

definition minus_gf5 :: "gf5 \<Rightarrow> gf5 \<Rightarrow> gf5" where
  "minus_gf5 a b = gf5_of (gf5_val a + (5 - gf5_val b))"

definition times_gf5 :: "gf5 \<Rightarrow> gf5 \<Rightarrow> gf5" where
  "times_gf5 a b = gf5_of (gf5_val a * gf5_val b)"

definition inverse_gf5 :: "gf5 \<Rightarrow> gf5" where
  "inverse_gf5 a = gf5_of (gf5_val a * gf5_val a * gf5_val a)"

definition divide_gf5 :: "gf5 \<Rightarrow> gf5 \<Rightarrow> gf5" where
  "divide_gf5 a b = gf5_of (gf5_val a * gf5_val (gf5_of (gf5_val b * gf5_val b * gf5_val b)))"

instance
proof
  fix a b c :: gf5
  show "a + b + c = a + (b + c)"
    by (cases a; cases b; cases c; simp add: plus_gf5_def gf5_of_def)
  show "a + b = b + a"
    by (simp add: plus_gf5_def add.commute)
  show "0 + a = a"
    by (cases a; simp add: plus_gf5_def zero_gf5_def gf5_of_def)
  show "- a + a = 0"
    by (cases a; simp add: plus_gf5_def uminus_gf5_def zero_gf5_def gf5_of_def)
  show "a - b = a + - b"
    by (cases a; cases b; simp add: plus_gf5_def uminus_gf5_def minus_gf5_def gf5_of_def)
  show "a * b * c = a * (b * c)"
    by (cases a; cases b; cases c; simp add: times_gf5_def gf5_of_def)
  show "a * b = b * a"
    by (simp add: times_gf5_def mult.commute)
  show "1 * a = a"
    by (cases a; simp add: times_gf5_def one_gf5_def gf5_of_def)
  show "(a + b) * c = a * c + b * c"
    by (cases a; cases b; cases c; simp add: plus_gf5_def times_gf5_def gf5_of_def)
  show "(0::gf5) \<noteq> 1"
    by (simp add: zero_gf5_def one_gf5_def)
  show "a \<noteq> 0 \<Longrightarrow> inverse a * a = 1"
    by (cases a; simp add: times_gf5_def inverse_gf5_def zero_gf5_def one_gf5_def gf5_of_def)
  show "a div b = a * inverse b"
    by (simp add: times_gf5_def inverse_gf5_def divide_gf5_def)
  show "inverse (0::gf5) = 0"
    by (simp add: inverse_gf5_def zero_gf5_def gf5_of_def)
qed

end

definition rs_2_4 :: "gf5 rsScheme" where
  "rs_2_4 = \<lparr>es_required = 2, es_points = [F0, F1, F2, F3], es_shareSize = 2\<rparr>"

definition sample_stream :: "gf5 list" where
  "sample_stream = [F1, F2, F3, F4, F4, F0, F2, F2]"

text \<open>
  An audit of the first stripe of that stream under the \<open>(2, 4)\<close> code, with the shares
  as \<^verbatim>\<open>DownloadShares\<close> builds them: a downloaded share carries its index and its data, a
  share whose download failed carries the error, its index and no data.
\<close>

definition stripe_shares :: "gf5 share list" where
  "stripe_shares =
     [\<lparr>Error = None, PieceNumber = 0, Data = [F1, F2]\<rparr>,
      \<lparr>Error = None, PieceNumber = 1, Data = [F3, F4]\<rparr>,
      \<lparr>Error = None, PieceNumber = 2, Data = [F0, F1]\<rparr>,
      \<lparr>Error = None, PieceNumber = 3, Data = [F2, F3]\<rparr>]"

definition one_offline :: "gf5 share list" where
  "one_offline =
     stripe_shares[2 := \<lparr>Error = Some (External ''connection refused''), PieceNumber = 2, Data = []\<rparr>]"

definition tampered :: "nat \<Rightarrow> gf5 share list" where
  "tampered i = stripe_shares[i := (stripe_shares ! i)\<lparr>Data := [F4, F4]\<rparr>]"

definition fec_2_4 :: "gf5 rsScheme" where
  "fec_2_4 = \<lparr>es_required = 2, es_points = [F0, F1, F2, F3], es_shareSize = 0\<rparr>"

definition encoded_shares :: "gf5 infectious_Share list" where
  "encoded_shares =
     [\<lparr>Number = 0, Share_Data = [F1, F2]\<rparr>, \<lparr>Number = 1, Share_Data = [F3, F4]\<rparr>,
      \<lparr>Number = 2, Share_Data = [F0, F1]\<rparr>, \<lparr>Number = 3, Share_Data = [F2, F3]\<rparr>]"

definition audit_2_4 :: "gf5 share list \<Rightarrow> (gf5 rsScheme, gf5) audit_env" where
  "audit_2_4 shares =
     \<lparr>NewFEC = NewFEC_over [F0, F1, F2, F3], Correct = FEC_Correct,
      DownloadShares = (\<lambda>ptr stripeIndex. Inr (shares, four_nodes))\<rparr>"

definition audited_pointer :: pointer where
  "audited_pointer = makeRemotePointer rs_2_3_3_4 four_nodes ''piece'' 3 0 []"


section \<open>Properties of the erasure-code client\<close>

subsection \<open>\<^verbatim>\<open>unique\<close> rejects exactly the lists with a repeated non-empty id\<close>

lemma identical_neighbors_sorted:
  "sorted xs \<Longrightarrow> identical_neighbors xs \<longleftrightarrow> \<not> distinct (filter (\<lambda>x. x \<noteq> []) xs)"
proof (induction xs rule: identical_neighbors.induct)
  case (1 a b rest)
  show ?case
  proof (cases "b \<noteq> [] \<and> b = a")
    case True
    then have "b \<noteq> []" "a \<noteq> []" "b = a" by auto
    then show ?thesis by simp
  next
    case False
    from "1.prems" have sb: "sorted (b # rest)" by simp
    from "1.prems" have le: "\<forall>x \<in> set (b # rest). a \<le> x" by simp
    have ih: "identical_neighbors (b # rest) \<longleftrightarrow> \<not> distinct (filter (\<lambda>x. x \<noteq> []) (b # rest))"
      using "1.IH" False sb by blast
    have notin: "a \<noteq> [] \<Longrightarrow> a \<notin> set (b # rest)"
    proof
      assume ne: "a \<noteq> []" and "a \<in> set (b # rest)"
      then have "a = b \<or> a \<in> set rest" by simp
      then show False
      proof
        assume "a = b" with False ne show False by simp
      next
        assume "a \<in> set rest"
        with sb have "b \<le> a" by simp
        moreover from le have "a \<le> b" by simp
        ultimately have "a = b" by simp
        with False ne show False by simp
      qed
    qed
    have step: "identical_neighbors (a # b # rest) = identical_neighbors (b # rest)"
      using False by auto
    have "distinct (filter (\<lambda>x. x \<noteq> []) (a # b # rest)) \<longleftrightarrow>
          distinct (filter (\<lambda>x. x \<noteq> []) (b # rest))"
    proof (cases "a = []")
      case True
      then show ?thesis by simp
    next
      case ne: False
      with notin[OF ne] show ?thesis by auto
    qed
    with step ih show ?thesis by blast
  qed
qed simp_all

lemma distinct_filter_nth:
  "distinct (filter P xs) \<longleftrightarrow>
   (\<forall>i j. i < j \<and> j < length xs \<and> P (xs ! i) \<longrightarrow> xs ! i \<noteq> xs ! j)"
proof (induction xs)
  case Nil
  then show ?case by simp
next
  case (Cons x xs)
  show ?case (is "?L = ?R")
  proof
    assume L: ?L
    show ?R
    proof (intro allI impI)
      fix i j assume h: "i < j \<and> j < length (x # xs) \<and> P ((x # xs) ! i)"
      then obtain j' where j': "j = Suc j'" by (cases j) auto
      show "(x # xs) ! i \<noteq> (x # xs) ! j"
      proof (cases i)
        case 0
        with h have "P x" by simp
        with L have "x \<notin> set xs" by simp
        moreover from h j' have "xs ! j' \<in> set xs" by simp
        ultimately show ?thesis using 0 j' by auto
      next
        case (Suc i')
        from L have "distinct (filter P xs)" by (simp split: if_splits)
        with Cons.IH h Suc j' show ?thesis by simp
      qed
    qed
  next
    assume R: ?R
    have tl: "\<forall>i j. i < j \<and> j < length xs \<and> P (xs ! i) \<longrightarrow> xs ! i \<noteq> xs ! j"
    proof (intro allI impI)
      fix i j assume "i < j \<and> j < length xs \<and> P (xs ! i)"
      then have "Suc i < Suc j \<and> Suc j < length (x # xs) \<and> P ((x # xs) ! Suc i)" by simp
      with R have "(x # xs) ! Suc i \<noteq> (x # xs) ! Suc j" by blast
      then show "xs ! i \<noteq> xs ! j" by simp
    qed
    then have d: "distinct (filter P xs)" using Cons.IH by simp
    have "P x \<Longrightarrow> x \<notin> set xs"
    proof
      assume px: "P x" and "x \<in> set xs"
      then obtain j where "j < length xs" "xs ! j = x" by (auto simp: in_set_conv_nth)
      then have "0 < Suc j \<and> Suc j < length (x # xs) \<and> P ((x # xs) ! 0)" using px by simp
      with R have "(x # xs) ! 0 \<noteq> (x # xs) ! Suc j" by blast
      with \<open>xs ! j = x\<close> show False by simp
    qed
    with d show ?L by simp
  qed
qed

lemma unique_iff:
  "unique nodes \<longleftrightarrow>
   (\<forall>i j. i < j \<and> j < length nodes \<and> GetId (nodes ! i) \<noteq> [] \<longrightarrow> GetId (nodes ! i) \<noteq> GetId (nodes ! j))"
proof (cases "length nodes < 2")
  case True
  then have "\<And>i j. i < j \<Longrightarrow> j < length nodes \<Longrightarrow> False" by (cases nodes) auto
  hence False if "i < j" "j < length nodes" for i j using that by blast
  then show ?thesis using True unfolding unique_def by auto
next
  case False
  let ?ids = "map GetId nodes"
  have "unique nodes \<longleftrightarrow> distinct (filter (\<lambda>x. x \<noteq> []) (sort ?ids))"
    using False by (simp add: unique_def identical_neighbors_sorted)
  also have "\<dots> \<longleftrightarrow> distinct (filter (\<lambda>x. x \<noteq> []) ?ids)"
    by (simp add: filter_sort)
  also have "\<dots> \<longleftrightarrow> (\<forall>i j. i < j \<and> j < length ?ids \<and> ?ids ! i \<noteq> [] \<longrightarrow> ?ids ! i \<noteq> ?ids ! j)"
    by (rule distinct_filter_nth)
  also have "\<dots> \<longleftrightarrow> (\<forall>i j. i < j \<and> j < length nodes \<and> GetId (nodes ! i) \<noteq> [] \<longrightarrow> GetId (nodes ! i) \<noteq> GetId (nodes ! j))"
  proof -
    have "?ids ! i = GetId (nodes ! i)" if "i < length nodes" for i using that by simp
    moreover have "i < length nodes" if "i < j" "j < length nodes" for i j :: nat using that by simp
    ultimately show ?thesis by (metis length_map)
  qed
  finally show ?thesis .
qed

text \<open>
  C9. \<^verbatim>\<open>ecClient.Put\<close> validates its input before anything else: when the number of
  nodes differs from the scheme's total count, or two entries of the list carry the same
  non-empty node id, it returns a validation error and no node list, and the network is
  left as it was: no node has been dialed and no piece has been stored.
\<close>

theorem ecClient_Put_validation:
  assumes "int (length nodes) \<noteq> TotalCount rs \<or>
           (\<exists>i j. i < j \<and> j < length nodes \<and> GetId (nodes ! i) \<noteq> [] \<and>
                  GetId (nodes ! i) = GetId (nodes ! j))"
  shows "ecClient_Put env nodes rs s =
           ((None, Some (if int (length nodes) \<noteq> TotalCount rs
                         then NodeCountMismatch (int (length nodes)) (TotalCount rs)
                         else DuplicatedNodes)), s)"
proof (cases "int (length nodes) \<noteq> TotalCount rs")
  case True
  then show ?thesis by (simp add: ecClient_Put_def)
next
  case False
  with assms have "\<not> unique nodes" unfolding unique_iff by blast
  with False show ?thesis by (simp add: ecClient_Put_def)
qed

theorem ecClient_Put_validation_witness:
  "(\<exists>i j. i < j \<and> j < length [mk_node ''n0'', mk_node ''n1'', mk_node ''n0'', mk_node ''n3''] \<and>
       GetId ([mk_node ''n0'', mk_node ''n1'', mk_node ''n0'', mk_node ''n3''] ! i) \<noteq> [] \<and>
       GetId ([mk_node ''n0'', mk_node ''n1'', mk_node ''n0'', mk_node ''n3''] ! i) =
       GetId ([mk_node ''n0'', mk_node ''n1'', mk_node ''n0'', mk_node ''n3''] ! j)) \<and>
   ecClient_Put quiet_env [mk_node ''n0'', mk_node ''n1'', mk_node ''n0'', mk_node ''n3'']
       rs_2_3_3_4 empty_net = ((None, Some DuplicatedNodes), empty_net)"
proof -
  let ?ns = "[mk_node ''n0'', mk_node ''n1'', mk_node ''n0'', mk_node ''n3'']"
  have h: "\<exists>i j. i < j \<and> j < length ?ns \<and> GetId (?ns ! i) \<noteq> [] \<and> GetId (?ns ! i) = GetId (?ns ! j)"
    by (rule exI[of _ 0], rule exI[of _ 2]) (simp add: mk_node_def)
  have "int (length ?ns) = TotalCount rs_2_3_3_4" by (simp add: rs_2_3_3_4_def)
  with ecClient_Put_validation[of ?ns rs_2_3_3_4 quiet_env empty_net] h
  show ?thesis by simp
qed

section \<open>Properties of the segment upload\<close>

lemma put_piece_fst: "fst (put_piece env i n s) = put_outcome env i n"
  by (simp add: put_piece_def put_outcome_def Let_def split: option.splits)

lemma put_piece_stored:
  "stored (snd (put_piece env i n s)) =
     (if n \<noteq> None \<and> put_outcome env i n = None then insert (GetId n) (stored s) else stored s)"
  by (simp add: put_piece_def put_outcome_def Let_def split: option.splits)

lemma run_puts_fst:
  "fst (run_puts env xs s) = map (\<lambda>(i, n). (i, put_outcome env i n)) xs"
proof (induction xs arbitrary: s)
  case Nil
  then show ?case by simp
next
  case (Cons x xs)
  obtain i n where x: "x = (i, n)" by (cases x)
  obtain e s1 where p: "put_piece env i n s = (e, s1)" by (cases "put_piece env i n s")
  have e: "e = put_outcome env i n" using put_piece_fst[of env i n s] p by simp
  obtain infos s2 where r: "run_puts env xs s1 = (infos, s2)" by (cases "run_puts env xs s1")
  have "infos = map (\<lambda>(i, n). (i, put_outcome env i n)) xs" using Cons.IH[of s1] r by simp
  then show ?case using x p e r by simp
qed

lemma run_puts_stored:
  "stored (snd (run_puts env xs s)) =
     stored s \<union> {GetId n | i n. (i, n) \<in> set xs \<and> n \<noteq> None \<and> put_outcome env i n = None}"
proof (induction xs arbitrary: s)
  case Nil
  then show ?case by simp
next
  case (Cons x xs)
  obtain i n where x: "x = (i, n)" by (cases x)
  obtain e s1 where p: "put_piece env i n s = (e, s1)" by (cases "put_piece env i n s")
  have s1: "stored s1 = (if n \<noteq> None \<and> put_outcome env i n = None then insert (GetId n) (stored s) else stored s)"
    using put_piece_stored[of env i n s] p by simp
  obtain infos s2 where r: "run_puts env xs s1 = (infos, s2)" by (cases "run_puts env xs s1")
  have s2: "stored s2 = stored s1 \<union> {GetId n | i n. (i, n) \<in> set xs \<and> n \<noteq> None \<and> put_outcome env i n = None}"
    using Cons.IH[of s1] r by simp
  have "stored (snd (run_puts env (x # xs) s)) = stored s2" using x p r by simp
  also have "\<dots> = stored s \<union> {GetId n | i n. (i, n) \<in> set (x # xs) \<and> n \<noteq> None \<and> put_outcome env i n = None}"
    unfolding s2 s1 x by auto
  finally show ?case .
qed

lemma collect_enumerate:
  "length pre = length done \<Longrightarrow>
   collect (pre @ ys) (map (\<lambda>(i, n). (i, out i n)) (enumerate (length pre) ys))
       (done @ replicate (length ys) None, c) =
     (done @ map (\<lambda>(i, n). if out i n = None then n else None) (enumerate (length pre) ys),
      c + int (length (filter (\<lambda>(i, n). out i n = None) (enumerate (length pre) ys))))"
proof (induction ys arbitrary: pre "done" c)
  case Nil
  then show ?case by simp
next
  case (Cons y ys)
  let ?k = "length pre"
  let ?v = "if out ?k y = None then y else None"
  let ?c = "if out ?k y = None then c + 1 else c"
  have upd: "(done @ None # replicate (length ys) None)[?k := (pre @ y # ys) ! ?k]
              = done @ y # replicate (length ys) None"
    using Cons.prems by (simp add: list_update_append nth_append)
  have step: "collect (pre @ y # ys) (map (\<lambda>(i, n). (i, out i n)) (enumerate ?k (y # ys)))
                (done @ replicate (length (y # ys)) None, c)
            = collect ((pre @ [y]) @ ys) (map (\<lambda>(i, n). (i, out i n)) (enumerate (length (pre @ [y])) ys))
                ((done @ [?v]) @ replicate (length ys) None, ?c)"
    using upd by simp
  have len: "length (pre @ [y]) = length (done @ [?v])" using Cons.prems by simp
  show ?case
    unfolding step Cons.IH[OF len] by simp
qed

lemma collect_all:
  "collect nodes (map (\<lambda>(i, n). (i, out i n)) (enumerate 0 nodes)) (replicate (length nodes) None, 0) =
     (map (\<lambda>(i, n). if out i n = None then n else None) (enumerate 0 nodes),
      int (length (filter (\<lambda>(i, n). out i n = None) (enumerate 0 nodes))))"
  using collect_enumerate[of "[]" "[]" nodes out 0] by simp

lemma enumerate_map_index:
  "map (\<lambda>(i, n). f i n) (enumerate 0 xs) = map (\<lambda>i. f i (xs ! i)) [0..<length xs]"
  by (rule nth_equalityI) (simp_all add: nth_enumerate_eq)

lemma enumerate_filter_length:
  "length (filter (\<lambda>(i, n). P i n) (enumerate 0 xs)) = length (filter (\<lambda>i. P i (xs ! i)) [0..<length xs])"
proof (induction xs rule: rev_induct)
  case Nil
  then show ?case by simp
next
  case (snoc x xs)
  have "filter (\<lambda>i. P i ((xs @ [x]) ! i)) [0..<length xs] = filter (\<lambda>i. P i (xs ! i)) [0..<length xs]"
    by (rule filter_cong) (simp_all add: nth_append)
  then show ?case using snoc.IH by (simp add: enumerate_append_eq)
qed

lemma remotePieces_of_append:
  "remotePieces_of (a @ b) = remotePieces_of a @ remotePieces_of b"
  by (induction a rule: remotePieces_of.induct) simp_all

lemma remotePieces_of_index:
  "remotePieces_of (enumerate 0 xs) =
     map (\<lambda>i. \<lparr>PieceNum = word_of_nat i, NodeId = GetId (xs ! i)\<rparr>)
         (filter (\<lambda>i. xs ! i \<noteq> None) [0..<length xs])"
proof (induction xs rule: rev_induct)
  case Nil
  then show ?case by simp
next
  case (snoc x xs)
  have f: "filter (\<lambda>i. (xs @ [x]) ! i \<noteq> None) [0..<length xs] = filter (\<lambda>i. xs ! i \<noteq> None) [0..<length xs]"
    by (rule filter_cong) (simp_all add: nth_append)
  have m: "map (\<lambda>i. \<lparr>PieceNum = word_of_nat i, NodeId = GetId ((xs @ [x]) ! i)\<rparr>)
             (filter (\<lambda>i. xs ! i \<noteq> None) [0..<length xs])
         = map (\<lambda>i. \<lparr>PieceNum = word_of_nat i, NodeId = GetId (xs ! i)\<rparr>)
             (filter (\<lambda>i. xs ! i \<noteq> None) [0..<length xs])"
    by (rule map_cong) (simp_all add: nth_append)
  show ?case
    using f m
    by (cases x) (simp_all add: enumerate_append_eq remotePieces_of_append snoc.IH del: not_None_eq)
qed

lemma remotePieces_of_successful:
  "remotePieces_of (enumerate 0 (successfulNodes_of env nodes)) =
     map (\<lambda>i. \<lparr>PieceNum = word_of_nat i, NodeId = GetId (nodes ! i)\<rparr>)
         (filter (\<lambda>i. nodes ! i \<noteq> None) (successful_indices env nodes))"
proof -
  let ?sn = "successfulNodes_of env nodes"
  have len: "length ?sn = length nodes" by (simp add: successfulNodes_of_def)
  have nth: "?sn ! i = (if succeeded env nodes i then nodes ! i else None)" if "i < length nodes" for i
    using that by (simp add: successfulNodes_of_def)
  have f: "filter (\<lambda>i. ?sn ! i \<noteq> None) [0..<length nodes]
         = filter (\<lambda>i. nodes ! i \<noteq> None) (successful_indices env nodes)"
    unfolding successful_indices_def filter_filter
    by (rule filter_cong) (auto simp: nth)
  have m: "map (\<lambda>i. \<lparr>PieceNum = word_of_nat i, NodeId = GetId (?sn ! i)\<rparr>)
             (filter (\<lambda>i. nodes ! i \<noteq> None) (successful_indices env nodes))
         = map (\<lambda>i. \<lparr>PieceNum = word_of_nat i, NodeId = GetId (nodes ! i)\<rparr>)
             (filter (\<lambda>i. nodes ! i \<noteq> None) (successful_indices env nodes))"
    by (rule map_cong) (auto simp: nth successful_indices_def)
  show ?thesis
    unfolding remotePieces_of_index len f m ..
qed

lemma ecClient_Put_run:
  assumes "int (length nodes) = TotalCount rs" "unique nodes" "encode_err env = None"
  shows "ecClient_Put env nodes rs s =
    (let s1 = snd (run_puts env (enumerate 0 nodes) s);
         cnt = int (length (successful_indices env nodes));
         ret = (if cnt < RepairThreshold rs
                then (None, Some (BelowRepairThreshold cnt (RepairThreshold rs)))
                else (Some (successfulNodes_of env nodes), None))
     in if ctx_done env
        then ((fst ret, Some (UploadCancelled (fst (ecClient_Delete env nodes s1)))),
              snd (ecClient_Delete env nodes s1))
        else (ret, s1))"
proof -
  obtain infos s1 where r: "run_puts env (enumerate 0 nodes) s = (infos, s1)"
    by (cases "run_puts env (enumerate 0 nodes) s")
  have infos: "infos = map (\<lambda>(i, n). (i, put_outcome env i n)) (enumerate 0 nodes)"
    using run_puts_fst[of env "enumerate 0 nodes" s] r by simp
  have c: "collect nodes infos (replicate (length nodes) None, 0) =
             (successfulNodes_of env nodes, int (length (successful_indices env nodes)))"
    unfolding infos collect_all
    by (simp add: successfulNodes_of_def successful_indices_def succeeded_def
          enumerate_map_index enumerate_filter_length)
  obtain derr s2 where d: "ecClient_Delete env nodes s1 = (derr, s2)"
    by (cases "ecClient_Delete env nodes s1")
  show ?thesis
    using assms r c d by (simp add: ecClient_Put_def Let_def)
qed

lemma delete_piece_stored:
  "stored (snd (delete_piece env n s)) =
     (if n \<noteq> None \<and> delete_outcome env n = None then stored s - {GetId n} else stored s)"
  by (simp add: delete_piece_def delete_outcome_def Let_def split: option.splits)

lemma run_deletes_stored:
  "stored (snd (run_deletes env ns s)) =
     stored s - {GetId n | n. n \<in> set ns \<and> n \<noteq> None \<and> delete_outcome env n = None}"
proof (induction ns arbitrary: s)
  case Nil
  then show ?case by simp
next
  case (Cons n ns)
  obtain e s1 where p: "delete_piece env n s = (e, s1)" by (cases "delete_piece env n s")
  have s1: "stored s1 = (if n \<noteq> None \<and> delete_outcome env n = None then stored s - {GetId n} else stored s)"
    using delete_piece_stored[of env n s] p by simp
  obtain es s2 where r: "run_deletes env ns s1 = (es, s2)" by (cases "run_deletes env ns s1")
  have s2: "stored s2 = stored s1 - {GetId n | n. n \<in> set ns \<and> n \<noteq> None \<and> delete_outcome env n = None}"
    using Cons.IH[of s1] r by simp
  have "stored (snd (run_deletes env (n # ns) s)) = stored s2" using p r by simp
  also have "\<dots> = stored s - {GetId m | m. m \<in> set (n # ns) \<and> m \<noteq> None \<and> delete_outcome env m = None}"
    unfolding s2 s1 by auto
  finally show ?case .
qed

lemma ecClient_Delete_stored:
  "stored (snd (ecClient_Delete env ns s)) = stored s - set (deleted_ids env ns)"
proof -
  have e: "{GetId n | n. n \<in> set ns \<and> n \<noteq> None \<and> delete_outcome env n = None} = set (deleted_ids env ns)"
    by (auto simp: deleted_ids_def)
  obtain es s1 where r: "run_deletes env ns s = (es, s1)" by (cases "run_deletes env ns s")
  have "snd (ecClient_Delete env ns s) = s1"
    using r by (simp add: ecClient_Delete_def Let_def)
  then show ?thesis using run_deletes_stored[of env ns s] r e by simp
qed

lemma run_puts_stored_index:
  "stored (snd (run_puts env (enumerate 0 nodes) s)) = stored s \<union> set (accepted_ids env nodes)"
proof -
  have "{GetId n | i n. (i, n) \<in> set (enumerate 0 nodes) \<and> n \<noteq> None \<and> put_outcome env i n = None}
      = set (accepted_ids env nodes)"
    by (auto simp: in_set_enumerate_eq successful_indices_def succeeded_def accepted_ids_def)
  then show ?thesis unfolding run_puts_stored by simp
qed

text \<open>
  C1 (as the code has it). For a segment upload that reaches the dispersal (the overlay
  returned \<open>n\<close> nodes with distinct ids and the encoder started), with \<open>ok\<close> the
  indices whose goroutine reported success:
  \<^item> if fewer than \<open>r\<close> succeeded, or the context is cancelled, the upload fails and no
    pointer is written;
  \<^item> without cancellation nothing is deleted: the nodes that accepted a piece keep it,
    also when the upload failed for being below the repair threshold;
  \<^item> with cancellation a delete is issued to every node of the list, and the piece is
    gone from every node whose delete succeeded;
  \<^item> if at least \<open>r\<close> succeeded, the context is not cancelled and the pointer write
    succeeds, the stored pointer is REMOTE and lists exactly the successful pieces, in
    ascending order, each with its index in the node list as \<^verbatim>\<open>piece_num\<close>.
\<close>

theorem segmentStore_Put_partial_failure:
  fixes env :: seg_env and rs thresholdSize data expiration w nodes
  defines "res \<equiv> segmentStore_Put env rs thresholdSize data expiration w"
  defines "ok \<equiv> successful_indices (ec env) nodes"
  assumes reach: "timestamp_err env = None" "peek_err env = None"
      "thresholdSize < int (length data)" "Choose env (TotalCount rs) = Inr nodes"
      "signed_message_err env = None"
    and valid: "int (length nodes) = TotalCount rs" "unique nodes" "encode_err (ec env) = None"
  shows "(int (length ok) < RepairThreshold rs \<or> ctx_done (ec env) \<longrightarrow>
            (\<exists>e. fst res = Inl e) \<and> pdb (snd res) = pdb w)
       \<and> (\<not> ctx_done (ec env) \<longrightarrow>
            stored (network (snd res)) = stored (network w) \<union> set (accepted_ids (ec env) nodes))
       \<and> (ctx_done (ec env) \<longrightarrow>
            stored (network (snd res)) =
              (stored (network w) \<union> set (accepted_ids (ec env) nodes)) - set (deleted_ids (ec env) nodes))
       \<and> (\<not> ctx_done (ec env) \<and> RepairThreshold rs \<le> int (length ok) \<and>
          segmentInfo env = Inr (path, md) \<and> pdb_put_err env = None \<longrightarrow>
            (\<exists>ptr rem. pdb (snd res) path = Some ptr \<and> Type ptr = REMOTE \<and> Remote ptr = Some rem \<and>
               RemotePieces rem =
                 map (\<lambda>i. \<lparr>PieceNum = word_of_nat i, NodeId = GetId (nodes ! i)\<rparr>)
                     (filter (\<lambda>i. nodes ! i \<noteq> None) ok)))"
proof -
  let ?s1 = "snd (run_puts (ec env) (enumerate 0 nodes) (network w))"
  let ?cnt = "int (length ok)"
  note run = ecClient_Put_run[OF valid, of "network w", folded ok_def]
  have head: "res = (case ecClient_Put (ec env) nodes rs (network w) of
          ((_, Some e), n1) \<Rightarrow> (Inl (Wrapped e), w\<lparr>network := n1\<rparr>)
        | ((successfulNodes, None), n1) \<Rightarrow>
            (case segmentInfo env of
               Inl e \<Rightarrow> (Inl (Wrapped e), w\<lparr>network := n1\<rparr>)
             | Inr (path, metadata) \<Rightarrow>
                 put_pointer env path
                   (makeRemotePointer rs (case successfulNodes of None \<Rightarrow> [] | Some ns \<Rightarrow> ns)
                      (new_piece_id env) (int (length data)) expiration metadata)
                   (w\<lparr>network := n1\<rparr>)))"
    unfolding res_def segmentStore_Put_def using reach by simp
  have pp_net: "network (snd (put_pointer env p ptr v)) = network v" for p ptr v
    by (simp add: put_pointer_def Let_def split: option.splits)
  have s1: "stored ?s1 = stored (network w) \<union> set (accepted_ids (ec env) nodes)"
    by (rule run_puts_stored_index)
  show ?thesis
  proof (cases "ctx_done (ec env)")
    case True
    have r: "res = (Inl (Wrapped (UploadCancelled (fst (ecClient_Delete (ec env) nodes ?s1)))),
                    w\<lparr>network := snd (ecClient_Delete (ec env) nodes ?s1)\<rparr>)"
      unfolding head run using True by (simp add: Let_def)
    show ?thesis using True r s1 by (simp add: ecClient_Delete_stored)
  next
    case nd: False
    show ?thesis
    proof (cases "?cnt < RepairThreshold rs")
      case True
      have r: "res = (Inl (Wrapped (BelowRepairThreshold ?cnt (RepairThreshold rs))), w\<lparr>network := ?s1\<rparr>)"
        unfolding head run using True nd by (simp add: Let_def)
      show ?thesis using True nd r s1 by simp
    next
      case ge: False
      have r: "res = (case segmentInfo env of
               Inl e \<Rightarrow> (Inl (Wrapped e), w\<lparr>network := ?s1\<rparr>)
             | Inr (path, metadata) \<Rightarrow>
                 put_pointer env path
                   (makeRemotePointer rs (successfulNodes_of (ec env) nodes)
                      (new_piece_id env) (int (length data)) expiration metadata)
                   (w\<lparr>network := ?s1\<rparr>))"
        unfolding head run using ge nd by (simp add: Let_def split: sum.splits)
      have net: "network (snd res) = ?s1"
        unfolding r by (simp add: pp_net split: sum.splits prod.splits)
      have ptr: "\<exists>ptr rem. pdb (snd res) path = Some ptr \<and> Type ptr = REMOTE \<and> Remote ptr = Some rem \<and>
               RemotePieces rem =
                 map (\<lambda>i. \<lparr>PieceNum = word_of_nat i, NodeId = GetId (nodes ! i)\<rparr>)
                     (filter (\<lambda>i. nodes ! i \<noteq> None) ok)"
        if "segmentInfo env = Inr (path, md)" "pdb_put_err env = None"
        unfolding r ok_def using that
        by (simp add: put_pointer_def Let_def makeRemotePointer_def remotePieces_of_successful
              split: option.splits)
      show ?thesis using nd ge net s1 ptr by simp
    qed
  qed
qed

text \<open>
  With \<open>(k, r, o, n) = (2, 3, 3, 4)\<close> and the Puts to \<open>n1\<close> and \<open>n2\<close> failing, the
  upload aborts below the repair threshold; the pieces on \<open>n0\<close> and \<open>n3\<close> are still
  stored afterwards and no node was dialed a second time for a delete.
\<close>

theorem segmentStore_Put_below_threshold_counterexample:
  "segmentStore_Put (upload_env (put_fails False [''n1'', ''n2''])) rs_2_3_3_4 2 [1, 2, 3] 0 empty_world =
     (Inl (Wrapped (BelowRepairThreshold 2 3)),
      \<lparr>network = \<lparr>dialed = [''n0'', ''n1'', ''n2'', ''n3''], stored = {''n0'', ''n3''}\<rparr>,
       pdb = Map.empty\<rparr>)"
  by (simp add: segmentStore_Put_def upload_env_def put_fails_def quiet_env_def rs_2_3_3_4_def
        empty_world_def empty_net_def four_nodes_def mk_node_def ecClient_Put_def unique_def
        put_piece_def Let_def insert_commute)

lemma four_nodes_unique: "unique four_nodes"
  by (simp add: unique_def four_nodes_def mk_node_def)

lemma four_nodes_nth:
  "four_nodes ! 0 = mk_node ''n0''" "four_nodes ! Suc 0 = mk_node ''n1''"
  "four_nodes ! 2 = mk_node ''n2''" "four_nodes ! 3 = mk_node ''n3''"
  by (simp_all add: four_nodes_def numeral_2_eq_2 numeral_3_eq_3)

lemma successful_indices_put_fails:
  "successful_indices (put_fails c ids) four_nodes =
     filter (\<lambda>i. [''n0'', ''n1'', ''n2'', ''n3''] ! i \<notin> set ids) [0, 1, 2, 3]"
  by (simp add: successful_indices_def succeeded_def put_outcome_def put_fails_def quiet_env_def
        four_nodes_def mk_node_def upt_conv_Cons)

theorem segmentStore_Put_partial_failure_witness:
  "(RepairThreshold rs_2_3_3_4 \<le> int (length (successful_indices (put_fails False [''n1'']) four_nodes)) \<and>
    \<not> ctx_done (put_fails False [''n1'']) \<and>
    (\<exists>ptr rem. pdb (snd (segmentStore_Put (upload_env (put_fails False [''n1''])) rs_2_3_3_4 2 [1, 2, 3] 0 empty_world))
                  ''bucket/object'' = Some ptr \<and> Type ptr = REMOTE \<and> Remote ptr = Some rem \<and>
       RemotePieces rem =
         [\<lparr>PieceNum = 0, NodeId = ''n0''\<rparr>, \<lparr>PieceNum = 2, NodeId = ''n2''\<rparr>,
          \<lparr>PieceNum = 3, NodeId = ''n3''\<rparr>])) \<and>
   (int (length (successful_indices (put_fails False [''n1'', ''n2'']) four_nodes)) < RepairThreshold rs_2_3_3_4 \<and>
    (\<exists>e. fst (segmentStore_Put (upload_env (put_fails False [''n1'', ''n2''])) rs_2_3_3_4 2 [1, 2, 3] 0 empty_world) = Inl e) \<and>
    stored (network (snd (segmentStore_Put (upload_env (put_fails False [''n1'', ''n2''])) rs_2_3_3_4 2 [1, 2, 3] 0 empty_world)))
      = {''n0'', ''n3''}) \<and>
   (ctx_done (put_fails True [''n1'', ''n2'']) \<and>
    (\<exists>e. fst (segmentStore_Put (upload_env (put_fails True [''n1'', ''n2''])) rs_2_3_3_4 2 [1, 2, 3] 0 empty_world) = Inl e) \<and>
    stored (network (snd (segmentStore_Put (upload_env (put_fails True [''n1'', ''n2''])) rs_2_3_3_4 2 [1, 2, 3] 0 empty_world)))
      = {})"
proof -
  have reach: "timestamp_err (upload_env e) = None" "peek_err (upload_env e) = None"
      "(2::int) < int (length [1, 2, 3 :: byte])"
      "Choose (upload_env e) (TotalCount rs_2_3_3_4) = Inr four_nodes"
      "signed_message_err (upload_env e) = None"
      "int (length four_nodes) = TotalCount rs_2_3_3_4" for e
    by (simp_all add: upload_env_def four_nodes_def rs_2_3_3_4_def)
  have enc: "encode_err (ec (upload_env (put_fails c ids))) = None" for c ids
    by (simp_all add: upload_env_def put_fails_def quiet_env_def)
  have ec: "ec (upload_env e) = e" "segmentInfo (upload_env e) = Inr (''bucket/object'', [])"
       "pdb_put_err (upload_env e) = None" for e
    by (simp_all add: upload_env_def)
  have nd: "ctx_done (put_fails c ids) = c" for c ids by (simp add: put_fails_def quiet_env_def)
  have dl: "delete_outcome (put_fails c ids) n = None" for c ids n
    by (simp add: delete_outcome_def put_fails_def quiet_env_def split: option.splits)
  have acc: "accepted_ids (put_fails c ids) four_nodes =
      map (\<lambda>i. GetId (four_nodes ! i)) (filter (\<lambda>i. four_nodes ! i \<noteq> None)
         (filter (\<lambda>i. [''n0'', ''n1'', ''n2'', ''n3''] ! i \<notin> set ids) [0, 1, 2, 3]))" for c ids
    by (simp only: accepted_ids_def successful_indices_put_fails)
  have del: "deleted_ids (put_fails c ids) four_nodes = [''n0'', ''n1'', ''n2'', ''n3'']" for c ids
    by (simp add: deleted_ids_def dl four_nodes_def mk_node_def)
  note A = segmentStore_Put_partial_failure[OF reach(1-5) reach(6) four_nodes_unique enc,
      of False "[''n1'']" 0 empty_world "''bucket/object''" "[]"]
  note B = segmentStore_Put_partial_failure[OF reach(1-5) reach(6) four_nodes_unique enc,
      of False "[''n1'', ''n2'']" 0 empty_world "''bucket/object''" "[]"]
  note C = segmentStore_Put_partial_failure[OF reach(1-5) reach(6) four_nodes_unique enc,
      of True "[''n1'', ''n2'']" 0 empty_world "''bucket/object''" "[]"]
  have a: "?thesis \<longleftrightarrow> True"
    using A B C
    by (simp add: ec nd acc del successful_indices_put_fails four_nodes_nth mk_node_def
          rs_2_3_3_4_def empty_world_def empty_net_def insert_commute)
  then show ?thesis by simp
qed

lemma put_piece_dialed:
  "dialed (snd (put_piece env i n s)) = dialed s @ put_dials env [n]"
  by (simp add: put_piece_def put_dials_def Let_def split: option.splits)

lemma put_dials_Cons: "put_dials env (n # ns) = put_dials env [n] @ put_dials env ns"
  by (simp add: put_dials_def)

lemma run_puts_dialed:
  "dialed (snd (run_puts env xs s)) = dialed s @ put_dials env (map snd xs)"
proof (induction xs arbitrary: s)
  case Nil
  then show ?case by (simp add: put_dials_def)
next
  case (Cons x xs)
  obtain i n where x: "x = (i, n)" by (cases x)
  obtain e s1 where p: "put_piece env i n s = (e, s1)" by (cases "put_piece env i n s")
  have s1: "dialed s1 = dialed s @ put_dials env [n]"
    using put_piece_dialed[of env i n s] p by simp
  obtain infos s2 where r: "run_puts env xs s1 = (infos, s2)" by (cases "run_puts env xs s1")
  have s2: "dialed s2 = dialed s1 @ put_dials env (map snd xs)"
    using Cons.IH[of s1] r by simp
  have "dialed (snd (run_puts env (x # xs) s)) = dialed s2" using x p r by simp
  also have "\<dots> = dialed s @ put_dials env (map snd (x # xs))"
    unfolding s2 s1 x using put_dials_Cons[of env n "map snd xs"] by simp
  finally show ?case .
qed

lemma run_puts_dialed_index:
  "dialed (snd (run_puts env (enumerate 0 nodes) s)) = dialed s @ put_dials env nodes"
  by (simp add: run_puts_dialed)

text \<open>
  C2 (as the code has it). When the pieces have been dispersed (at least \<open>r\<close> Puts
  succeeded, context not cancelled) and the pointer write fails, \<^verbatim>\<open>Put\<close> returns the
  wrapped error and does nothing else: the network is exactly as the Puts left it, every
  node that accepted a piece still holds it, each node was dialed once (for its Put, none
  for a delete), and no pointer was written.
\<close>

theorem segmentStore_Put_pointer_write_failure:
  assumes reach: "timestamp_err env = None" "peek_err env = None"
      "thresholdSize < int (length data)" "Choose env (TotalCount rs) = Inr nodes"
      "signed_message_err env = None"
    and valid: "int (length nodes) = TotalCount rs" "unique nodes" "encode_err (ec env) = None"
    and dispersed: "\<not> ctx_done (ec env)"
      "RepairThreshold rs \<le> int (length (successful_indices (ec env) nodes))"
    and info: "segmentInfo env = Inr (path, md)"
    and write_fails: "pdb_put_err env = Some e"
  shows "segmentStore_Put env rs thresholdSize data expiration w =
           (Inl (Wrapped e), w\<lparr>network := snd (run_puts (ec env) (enumerate 0 nodes) (network w))\<rparr>)
       \<and> stored (snd (run_puts (ec env) (enumerate 0 nodes) (network w))) =
           stored (network w) \<union> set (accepted_ids (ec env) nodes)
       \<and> dialed (snd (run_puts (ec env) (enumerate 0 nodes) (network w))) =
           dialed (network w) @ put_dials (ec env) nodes"
proof -
  have "segmentStore_Put env rs thresholdSize data expiration w =
           (Inl (Wrapped e), w\<lparr>network := snd (run_puts (ec env) (enumerate 0 nodes) (network w))\<rparr>)"
    unfolding segmentStore_Put_def using reach dispersed info write_fails
    by (simp add: ecClient_Put_run[OF valid] Let_def put_pointer_def)
  then show ?thesis
    by (simp add: run_puts_stored_index run_puts_dialed_index)
qed

text \<open>
  All four Puts succeed and the pointer service refuses the write: the four pieces stay
  on their nodes, no delete is issued, and no pointer references them.
\<close>

theorem segmentStore_Put_pointer_write_failure_counterexample:
  "segmentStore_Put pointer_write_fails rs_2_3_3_4 2 [1, 2, 3] 0 empty_world =
     (Inl (Wrapped (External ''pointer write failed'')),
      \<lparr>network = \<lparr>dialed = [''n0'', ''n1'', ''n2'', ''n3''],
                  stored = {''n0'', ''n1'', ''n2'', ''n3''}\<rparr>,
       pdb = Map.empty\<rparr>)"
  by (simp add: segmentStore_Put_def pointer_write_fails_def upload_env_def quiet_env_def rs_2_3_3_4_def
        empty_world_def empty_net_def four_nodes_def mk_node_def ecClient_Put_def unique_def
        put_piece_def put_pointer_def Let_def insert_commute)

theorem segmentStore_Put_pointer_write_failure_witness:
  "\<not> ctx_done (ec pointer_write_fails) \<and>
   RepairThreshold rs_2_3_3_4 \<le> int (length (successful_indices (ec pointer_write_fails) four_nodes)) \<and>
   pdb_put_err pointer_write_fails = Some (External ''pointer write failed'') \<and>
   fst (segmentStore_Put pointer_write_fails rs_2_3_3_4 2 [1, 2, 3] 0 empty_world) =
      Inl (Wrapped (External ''pointer write failed'')) \<and>
   stored (snd (run_puts (ec pointer_write_fails) (enumerate 0 four_nodes) (network empty_world))) =
      {''n0'', ''n1'', ''n2'', ''n3''} \<and>
   dialed (snd (run_puts (ec pointer_write_fails) (enumerate 0 four_nodes) (network empty_world))) =
      [''n0'', ''n1'', ''n2'', ''n3'']"
proof -
  have ecq: "ec pointer_write_fails = put_fails False []"
    by (simp add: pointer_write_fails_def upload_env_def put_fails_def quiet_env_def)
  have reach: "timestamp_err pointer_write_fails = None" "peek_err pointer_write_fails = None"
      "(2::int) < int (length [1, 2, 3 :: byte])"
      "Choose pointer_write_fails (TotalCount rs_2_3_3_4) = Inr four_nodes"
      "signed_message_err pointer_write_fails = None"
      "int (length four_nodes) = TotalCount rs_2_3_3_4"
    by (simp_all add: pointer_write_fails_def upload_env_def four_nodes_def rs_2_3_3_4_def)
  have enc: "encode_err (ec pointer_write_fails) = None"
    by (simp add: ecq put_fails_def quiet_env_def)
  have nd: "\<not> ctx_done (ec pointer_write_fails)"
    by (simp add: ecq put_fails_def quiet_env_def)
  have ge: "RepairThreshold rs_2_3_3_4 \<le> int (length (successful_indices (ec pointer_write_fails) four_nodes))"
    by (simp add: ecq successful_indices_put_fails rs_2_3_3_4_def)
  have info: "segmentInfo pointer_write_fails = Inr (''bucket/object'', [])"
    and wf: "pdb_put_err pointer_write_fails = Some (External ''pointer write failed'')"
    by (simp_all add: pointer_write_fails_def upload_env_def)
  have acc: "accepted_ids (ec pointer_write_fails) four_nodes = [''n0'', ''n1'', ''n2'', ''n3'']"
    by (simp add: ecq accepted_ids_def successful_indices_put_fails four_nodes_nth mk_node_def)
  have pd: "put_dials (ec pointer_write_fails) four_nodes = [''n0'', ''n1'', ''n2'', ''n3'']"
    by (simp add: ecq put_dials_def put_fails_def quiet_env_def four_nodes_def mk_node_def)
  from segmentStore_Put_pointer_write_failure[OF reach(1-5) reach(6) four_nodes_unique enc nd ge info wf,
      of 0 empty_world]
  show ?thesis
    using nd ge wf by (simp add: acc pd empty_world_def empty_net_def insert_commute)
qed

section \<open>Properties of the repair checker\<close>

lemma offline_indices_append:
  "offline_indices (a @ b) = offline_indices a @ offline_indices b"
  by (induction a rule: offline_indices.induct) simp_all

lemma offline_indices_positions:
  "offline_indices (enumerate 0 nodes) = map word_of_nat (missing_positions nodes)"
proof (induction nodes rule: rev_induct)
  case Nil
  then show ?case by (simp add: missing_positions_def)
next
  case (snoc x xs)
  have f: "filter (\<lambda>i. (xs @ [x]) ! i = None) [0..<length xs] = filter (\<lambda>i. xs ! i = None) [0..<length xs]"
    by (rule filter_cong) (simp_all add: nth_append)
  show ?case
    using f snoc.IH
    by (cases x) (simp_all add: missing_positions_def enumerate_append_eq offline_indices_append)
qed

lemma length_missing_positions: "length (missing_positions nodes) \<le> length nodes"
  unfolding missing_positions_def
  by (rule order_trans[OF length_filter_le]) simp

lemma int32_compare:
  fixes r :: "32 word"
  assumes "0 \<le> h" "h < 2 ^ 31"
  shows "(word_of_int h :: 32 word) <s r \<longleftrightarrow> h < sint r"
proof -
  have "sint (word_of_int h :: 32 word) = h"
    using assms by (simp add: sint_sbintrunc' signed_take_bit_int_eq_self)
  then show ?thesis by (simp add: word_sless_alt)
qed

lemma check_loop_scannable:
  "\<forall>item \<in> set (take (nat lim) kvs). scannable env item \<Longrightarrow>
   check_loop env lim kvs q = (None, q @ List.map_filter (enqueued_entry env) (take (nat lim) kvs))"
proof (induction kvs arbitrary: lim q)
  case Nil
  then show ?case by simp
next
  case (Cons item rest)
  show ?case
  proof (cases "lim > 0")
    case False
    then have "nat lim = 0" by simp
    then show ?thesis using False by (cases item) simp
  next
    case True
    then obtain m where m: "nat lim = Suc m" "nat (lim - 1) = m"
      by (metis Suc_nat_eq_nat_zadd1 add.commute diff_add_cancel nat_0_iff linorder_not_less not0_implies_Suc zle_diff1_eq)
    have sc: "scannable env item" and rest: "\<forall>i \<in> set (take (nat (lim - 1)) rest). scannable env i"
      using Cons.prems m by simp_all
    obtain key v where item: "item = (key, v)" by (cases item)
    from sc item obtain pointer remote nodes where
      v: "v = Marshalled pointer" and rem: "Remote pointer = Some remote"
      and bl: "BulkLookup env (map NodeId (RemotePieces remote)) = Inr nodes"
      and len: "length nodes = length (RemotePieces remote)" "length (RemotePieces remote) < 2 ^ 31"
      and enq: "case enqueued_entry env item of Some seg \<Rightarrow> Enqueue_err env seg = None | None \<Rightarrow> True"
      by (auto simp: scannable_def split: stored_value.splits option.splits sum.splits)
    let ?missing = "map word_of_nat (missing_positions nodes) :: 32 word list"
    let ?h = "int (length (RemotePieces remote)) - int (length (missing_positions nodes))"
    have off: "offlineNodes env (map NodeId (RemotePieces remote)) = Inr ?missing"
      by (simp add: offlineNodes_def bl offline_indices_positions)
    have h: "0 \<le> ?h" "?h < 2 ^ 31"
      using length_missing_positions[of nodes] len by simp_all
    have cmp: "(word_of_int ?h :: 32 word) <s RepairThreshold_pb (Redundancy remote)
               \<longleftrightarrow> ?h < sint (RepairThreshold_pb (Redundancy remote))"
      by (rule int32_compare[OF h])
    have cmp': "(word_of_nat (length (RemotePieces remote)) - word_of_nat (length (missing_positions nodes)) :: 32 word)
                  <s RepairThreshold_pb (Redundancy remote)
               \<longleftrightarrow> ?h < sint (RepairThreshold_pb (Redundancy remote))"
      using cmp by simp
    have ie: "enqueued_entry env item =
        (if ?h < sint (RepairThreshold_pb (Redundancy remote))
         then Some \<lparr>Path = key, LostPieces = ?missing\<rparr> else None)"
      by (simp add: enqueued_entry_def item v rem bl)
    note IH = Cons.IH[OF rest]
    show ?thesis
    proof (cases "?h < sint (RepairThreshold_pb (Redundancy remote))")
      case inj: True
      with enq ie have e: "Enqueue_err env \<lparr>Path = key, LostPieces = ?missing\<rparr> = None" by simp
      show ?thesis
        using True inj e
        by (simp add: item v rem off Let_def IH m ie[unfolded item v] cmp')
    next
      case ninj: False
      show ?thesis
        using True ninj
        by (simp add: item v rem off Let_def IH m ie[unfolded item v] cmp')
    qed
  qed
qed

text \<open>
  What the checker does. With a valid API key, and as long as every item within the
  limit is a REMOTE pointer whose lookup succeeds (one slot per piece) and whose
  enqueueing, if any, succeeds, the checker returns no error and appends to the repair
  queue, in scan order, the entries \<open>{path, positions of the nil lookup results}\<close> of
  the scanned pointers with fewer non-nil results than the repair threshold, and
  nothing for the others.
\<close>

lemma IdentifyInjuredSegments_enqueues_positions:
  fixes env kvs q
  defines "lim \<equiv> (if limit env \<le> 0 \<or> limit env > LookupLimit env then LookupLimit env else limit env)"
  assumes "api_key_valid env"
    and "\<forall>item \<in> set (take (nat lim) kvs). scannable env item"
  shows "IdentifyInjuredSegments env kvs q =
           (None, q @ List.map_filter (enqueued_entry env) (take (nat lim) kvs))"
  using assms check_loop_scannable[of lim kvs env q]
  by (simp add: IdentifyInjuredSegments_def Let_def)

lemma stored_pointer_remote:
  "stored_pointer r = Marshalled p \<Longrightarrow>
   Remote p = Some \<lparr>Redundancy = \<lparr>MinReq = 2, Total = 4, RepairThreshold_pb = word_of_int r,
       SuccessThreshold = 3, ErasureShareSize_pb = 1024\<rparr>, PieceId = ''piece'',
     RemotePieces = [\<lparr>PieceNum = 0, NodeId = ''n0''\<rparr>, \<lparr>PieceNum = 1, NodeId = ''n1''\<rparr>,
                     \<lparr>PieceNum = 2, NodeId = ''n2''\<rparr>, \<lparr>PieceNum = 3, NodeId = ''n3''\<rparr>]\<rparr>"
  by (auto simp: stored_pointer_def makeRemotePointer_def rs_2_3_3_4_def four_nodes_def mk_node_def)

lemma enqueued_entry_example:
  "enqueued_entry (online_overlay [''n0'', ''n1'']) (''seg/a'', stored_pointer 3) =
     Some \<lparr>Path = ''seg/a'', LostPieces = [2, 3]\<rparr>"
  "enqueued_entry (online_overlay [''n0'', ''n1'']) (''seg/b'', stored_pointer 2) = None"
  by (simp_all add: enqueued_entry_def stored_pointer_def makeRemotePointer_def rs_2_3_3_4_def
        four_nodes_def mk_node_def online_overlay_def missing_positions_def upt_conv_Cons)

lemma scannable_example:
  "scannable (online_overlay [''n0'', ''n1'']) (''seg/a'', stored_pointer 3)"
  "scannable (online_overlay [''n0'', ''n1'']) (''seg/b'', stored_pointer 2)"
  unfolding scannable_def enqueued_entry_example
  by (simp_all add: stored_pointer_def makeRemotePointer_def rs_2_3_3_4_def
        four_nodes_def mk_node_def online_overlay_def)

lemma IdentifyInjuredSegments_example:
  "api_key_valid (online_overlay [''n0'', ''n1'']) \<and>
   IdentifyInjuredSegments (online_overlay [''n0'', ''n1''])
       [(''seg/a'', stored_pointer 3), (''seg/b'', stored_pointer 2)] [] =
     (None, [\<lparr>Path = ''seg/a'', LostPieces = [2, 3]\<rparr>])"
proof -
  let ?env = "online_overlay [''n0'', ''n1'']"
  let ?kvs = "[(''seg/a'', stored_pointer 3), (''seg/b'', stored_pointer 2)]"
  have lim: "(if limit ?env \<le> 0 \<or> limit ?env > LookupLimit ?env then LookupLimit ?env else limit ?env) = 1000"
    by (simp add: online_overlay_def)
  have tk: "take (nat 1000) ?kvs = ?kvs" by simp
  have a: "api_key_valid ?env" by (simp add: online_overlay_def)
  have s: "\<forall>item \<in> set (take (nat (if limit ?env \<le> 0 \<or> limit ?env > LookupLimit ?env then LookupLimit ?env else limit ?env)) ?kvs). scannable ?env item"
    unfolding lim tk using scannable_example by simp
  from IdentifyInjuredSegments_enqueues_positions[OF a s, of "[]"]
  show ?thesis
    unfolding lim tk using a by (simp add: enqueued_entry_example)
qed

text \<open>
  On a pointer whose pieces are numbered by their position, the positions of the nil
  results are the numbers of the missing pieces: there the checker enqueues what the
  specification asks for.
\<close>

lemma zip_nth:
  "length xs = length ys \<Longrightarrow> zip xs ys = map (\<lambda>i. (xs ! i, ys ! i)) [0..<length ys]"
  by (intro nth_equalityI) simp_all

lemma missing_pieces_dense:
  assumes "length nodes = length pieces"
      and "map PieceNum pieces = map word_of_nat [0..<length pieces]"
  shows "missing_pieces pieces nodes = map word_of_nat (missing_positions nodes)"
proof -
  have num: "PieceNum (pieces ! i) = word_of_nat i" if "i < length pieces" for i
  proof -
    have "map PieceNum pieces ! i = map word_of_nat [0..<length pieces] ! i"
      using assms(2) by simp
    then show ?thesis using that by simp
  qed
  have "missing_pieces pieces nodes =
        map (\<lambda>i. PieceNum (pieces ! i)) (filter (\<lambda>i. nodes ! i = None) [0..<length nodes])"
    unfolding missing_pieces_def zip_nth[OF assms(1)[symmetric]]
    by (simp add: filter_map comp_def)
  also have "\<dots> = map word_of_nat (filter (\<lambda>i. nodes ! i = None) [0..<length nodes])"
    using num assms(1) by (intro map_cong refl) simp
  finally show ?thesis by (simp add: missing_positions_def)
qed

lemma map_filter_agree:
  "\<forall>x \<in> set xs. f x = g x \<Longrightarrow> List.map_filter f xs = List.map_filter g xs"
  by (induction xs) (simp_all add: map_filter_simps split: option.splits)

lemma enqueued_entry_dense:
  assumes "scannable env item" and "dense item"
  shows "enqueued_entry env item = injured_entry env item"
proof -
  obtain key v where item: "item = (key, v)" by (cases item)
  from assms(1) item obtain pointer remote nodes where
    v: "v = Marshalled pointer" and rem: "Remote pointer = Some remote"
    and bl: "BulkLookup env (map NodeId (RemotePieces remote)) = Inr nodes"
    and len: "length nodes = length (RemotePieces remote)"
    by (auto simp: scannable_def split: stored_value.splits option.splits sum.splits)
  have "map PieceNum (RemotePieces remote) = map word_of_nat [0..<length (RemotePieces remote)]"
    using assms(2) by (simp add: dense_def item v rem)
  from missing_pieces_dense[OF len this]
  show ?thesis
    by (simp add: enqueued_entry_def injured_entry_def item v rem bl)
qed

lemma IdentifyInjuredSegments_dense:
  fixes env kvs q
  defines "lim \<equiv> (if limit env \<le> 0 \<or> limit env > LookupLimit env then LookupLimit env else limit env)"
  assumes "api_key_valid env"
    and "\<forall>item \<in> set (take (nat lim) kvs). scannable env item \<and> dense item"
  shows "IdentifyInjuredSegments env kvs q =
           (None, q @ List.map_filter (injured_entry env) (take (nat lim) kvs))"
proof -
  have "List.map_filter (enqueued_entry env) (take (nat lim) kvs)
        = List.map_filter (injured_entry env) (take (nat lim) kvs)"
    using assms(3) by (intro map_filter_agree ballI enqueued_entry_dense) simp_all
  moreover have "IdentifyInjuredSegments env kvs q =
           (None, q @ List.map_filter (enqueued_entry env) (take (nat lim) kvs))"
    unfolding lim_def
    by (rule IdentifyInjuredSegments_enqueues_positions)
       (use assms(2,3) in \<open>simp_all add: lim_def\<close>)
  ultimately show ?thesis by (simp only:)
qed

lemma sparse_pointer_remote:
  "sparse_pointer r = Marshalled p \<Longrightarrow>
   Remote p = Some \<lparr>Redundancy = \<lparr>MinReq = 2, Total = 4, RepairThreshold_pb = word_of_int r,
       SuccessThreshold = 3, ErasureShareSize_pb = 1024\<rparr>, PieceId = ''piece'',
     RemotePieces = [\<lparr>PieceNum = 0, NodeId = ''n0''\<rparr>, \<lparr>PieceNum = 2, NodeId = ''n2''\<rparr>,
                     \<lparr>PieceNum = 3, NodeId = ''n3''\<rparr>]\<rparr>"
  by (auto simp: sparse_pointer_def makeRemotePointer_def rs_2_3_3_4_def four_nodes_def mk_node_def)

text \<open>
  C6, at the input where the code departs from it. The pointer is the one an upload
  writes when the Put of piece 1 failed: it lists the pieces 0, 2 and 3 on the nodes
  \<open>n0\<close>, \<open>n2\<close> and \<open>n3\<close>, with repair threshold 3. The overlay knows \<open>n0\<close> and \<open>n2\<close> but
  not \<open>n3\<close>: the lookup answers nil in its third slot, two pieces are healthy, and the
  segment is enqueued, as it should be. The missing piece is piece 3; the checker
  enqueues the position of the nil result, 2, which is the number of a healthy piece.
\<close>

theorem IdentifyInjuredSegments_sparse_pointer:
  "IdentifyInjuredSegments (online_overlay [''n0'', ''n2'']) [(''seg/a'', sparse_pointer 3)] [] =
     (None, [\<lparr>Path = ''seg/a'', LostPieces = [2]\<rparr>]) \<and>
   injured_entry (online_overlay [''n0'', ''n2'']) (''seg/a'', sparse_pointer 3) =
     Some \<lparr>Path = ''seg/a'', LostPieces = [3]\<rparr>"
  by (simp add: IdentifyInjuredSegments_def offlineNodes_def injured_entry_def missing_pieces_def
        sparse_pointer_def makeRemotePointer_def rs_2_3_3_4_def four_nodes_def mk_node_def
        online_overlay_def Let_def)

section \<open>Properties of the connection pool\<close>

lemma Dial_failed_entry:
  assumes "items pool (node_id n) = Some c" "c_dial c" "c_err c = Some e"
  shows "Dial env pool n = (Inl e, pool)"
  using assms by (simp add: Dial_def Let_def)

lemma Disconnect_failed_entry:
  assumes "items pool ident = Some c" "c_grpc c = None"
  shows "Disconnect env pool ident = (None, pool)"
  using assms by (simp add: Disconnect_def pool_disconnect_def)

lemma Dial_first_failure:
  assumes "items pool (node_id n) = None" "DialNode env (length (dial_log pool)) n = Some e"
  shows "Dial env pool n =
           (Inl e, pool\<lparr>items := (items pool)(node_id n \<mapsto> (NewConn (address n))\<lparr>c_dial := True, c_err := Some e\<rparr>),
                        dial_log := dial_log pool @ [n]\<rparr>)"
  using assms by (simp add: Dial_def Let_def NewConn_def)

lemma Dial_after_Init:
  "dial_log (snd (Dial env (Init pool) n)) = dial_log pool @ [n]"
  by (simp add: Dial_def Init_def Let_def NewConn_def split: option.splits)

text \<open>
  C10, at the input where the code departs from it. The transport refuses the first
  connection and would accept the next. The first \<^verbatim>\<open>Dial\<close> of node \<open>a\<close> fails;
  \<^verbatim>\<open>Disconnect\<close> then returns at \<^verbatim>\<open>if ptr == nil\<close>, before \<^verbatim>\<open>delete(pool.items, id)\<close>, so
  the entry stays in the pool; the next \<^verbatim>\<open>Dial\<close> returns the old error and the transport
  has still been asked only once.
\<close>

theorem Disconnect_keeps_failed_entry:
  "(let (r1, p1) = Dial flaky_transport empty_pool node_a;
        (d, p2) = Disconnect flaky_transport p1 ''a'';
        (r2, p3) = Dial flaky_transport p2 node_a
    in r1 = Inl (External ''connection refused'') \<and> d = None \<and> items p2 ''a'' \<noteq> None \<and>
       r2 = Inl (External ''connection refused'') \<and> dial_log p3 = [node_a])"
  by (simp add: Dial_def Disconnect_def pool_disconnect_def flaky_transport_def empty_pool_def
        node_a_def NewConn_def Let_def)

text \<open>
  After \<^verbatim>\<open>Init\<close> the entry is gone and the next \<^verbatim>\<open>Dial\<close> asks the transport again.
\<close>

lemma Init_allows_fresh_dial:
  "(let (r1, p1) = Dial flaky_transport empty_pool node_a;
        (r2, p2) = Dial flaky_transport (Init p1) node_a
    in r1 = Inl (External ''connection refused'') \<and> r2 = Inr (Some 1) \<and> dial_log p2 = [node_a, node_a])"
  by (simp add: Dial_def Init_def flaky_transport_def empty_pool_def node_a_def NewConn_def Let_def)

lemma failed_entry_Dial:
  assumes "failed_entry pool ident e"
  shows "failed_entry (snd (Dial env pool n)) ident e"
proof (cases "node_id n = ident")
  case True
  with assms obtain c where "items pool (node_id n) = Some c" "c_dial c" "c_err c = Some e"
    by (auto simp: failed_entry_def split: option.splits)
  then have "Dial env pool n = (Inl e, pool)" by (rule Dial_failed_entry)
  with assms show ?thesis by simp
next
  case False
  have "items (snd (Dial env pool n)) ident = items pool ident"
    using False by (simp add: Dial_def Let_def split: option.splits prod.splits)
  with assms show ?thesis by (simp add: failed_entry_def)
qed

lemma failed_entry_Disconnect:
  assumes "failed_entry pool ident e"
  shows "failed_entry (snd (Disconnect env pool j)) ident e"
proof (cases "j = ident")
  case True
  with assms obtain c where "items pool j = Some c" "c_grpc c = None"
    by (auto simp: failed_entry_def split: option.splits)
  then have "Disconnect env pool j = (None, pool)" by (rule Disconnect_failed_entry)
  with assms show ?thesis by simp
next
  case False
  have "items (snd (Disconnect env pool j)) ident = items pool ident"
    using False by (simp add: Disconnect_def pool_disconnect_def split: option.splits)
  with assms show ?thesis by (simp add: failed_entry_def)
qed

lemma failed_entry_run_ops:
  "failed_entry pool ident e \<Longrightarrow> failed_entry (run_ops env pool ops) ident e"
  by (induction env pool ops rule: run_ops.induct)
     (simp_all add: failed_entry_Dial failed_entry_Disconnect)

text \<open>
  The part of C10 that holds: once the entry of a node records a failed dial, every later
  \<^verbatim>\<open>Dial\<close> of that node, after any sequence of \<^verbatim>\<open>Dial\<close> and \<^verbatim>\<open>Disconnect\<close> calls on
  the pool, returns that same error and leaves the pool (and so the list of dial attempts)
  as it is.
\<close>

lemma Dial_failure_sticky:
  assumes "failed_entry pool (node_id n) e"
  shows "Dial env (run_ops env pool ops) n = (Inl e, run_ops env pool ops)"
proof -
  from assms have "failed_entry (run_ops env pool ops) (node_id n) e"
    by (rule failed_entry_run_ops)
  then obtain c where "items (run_ops env pool ops) (node_id n) = Some c" "c_dial c" "c_err c = Some e"
    by (auto simp: failed_entry_def split: option.splits)
  then show ?thesis by (rule Dial_failed_entry)
qed

section \<open>Properties of the retrieve loops\<close>



























section \<open>Properties of the pointer listing\<close>

lemma component_no_delimiter: "Delimiter \<notin> set r \<Longrightarrow> component r = r"
  by (induction r) auto

lemma component_last: "Delimiter \<in> set r \<Longrightarrow> component r \<noteq> [] \<and> last (component r) = Delimiter"
  by (induction r) auto

lemma component_butlast: "Delimiter \<notin> set (butlast (component r))"
  by (induction r) auto

lemma component_has_prefix: "has_prefix (component r) r"
  by (induction r) (auto simp: has_prefix_def)

lemma component_mono: "r < r' \<Longrightarrow> component r \<le> component r'"
proof (induction r arbitrary: r')
  case Nil
  then show ?case by simp
next
  case (Cons c cs)
  then obtain c' cs' where r': "r' = c' # cs'" by (cases r') auto
  with Cons.prems have "c < c' \<or> (c = c' \<and> cs < cs')" by simp
  then show ?case
  proof
    assume "c < c'"
    then show ?thesis by (auto simp: r')
  next
    assume h: "c = c' \<and> cs < cs'"
    then have "component cs \<le> component cs'" using Cons.IH by blast
    with h show ?thesis by (auto simp: r')
  qed
qed

lemma component_eq_delimiter:
  "r < r' \<Longrightarrow> component r = component r' \<Longrightarrow> Delimiter \<in> set r \<and> Delimiter \<in> set r'"
proof (induction r arbitrary: r')
  case Nil
  then obtain c' cs' where "r' = c' # cs'" by (cases r') auto
  with Nil show ?case by (auto split: if_splits)
next
  case (Cons c cs)
  then obtain c' cs' where r': "r' = c' # cs'" by (cases r') auto
  with Cons.prems(1) have "c < c' \<or> (c = c' \<and> cs < cs')" by simp
  then show ?case
  proof
    assume "c < c'"
    with Cons.prems(2) show ?thesis by (auto simp: r' split: if_splits)
  next
    assume h: "c = c' \<and> cs < cs'"
    show ?thesis
    proof (cases "c = Delimiter")
      case True
      with h show ?thesis by (simp add: r')
    next
      case False
      with h Cons.prems(2) have "component cs = component cs'" by (simp add: r')
      with Cons.IH[of cs'] h show ?thesis by (simp add: r')
    qed
  qed
qed

lemma append_less_cancel: "(p @ a < p @ b) = (a < (b :: string))"
  by (induction p) simp_all

lemma has_prefix_append_drop: "has_prefix p k \<Longrightarrow> p @ drop (length p) k = k"
  unfolding has_prefix_def by (metis append_take_drop_id)

lemma drop_less_iff:
  assumes "has_prefix p k" "has_prefix p k'"
  shows "drop (length p) k < drop (length p) k' \<longleftrightarrow> k < k'"
proof -
  have "k < k' \<longleftrightarrow> p @ drop (length p) k < p @ drop (length p) k'"
    using assms by (simp add: has_prefix_append_drop)
  then show ?thesis by (simp add: append_less_cancel)
qed

lemma collapse_subset: "set (collapse xs) \<subseteq> set xs"
  by (induction xs rule: collapse.induct) auto

lemma collapse_keys: "(\<lambda>e. (Key e, IsPrefix e)) ` set (collapse xs) = (\<lambda>e. (Key e, IsPrefix e)) ` set xs"
  by (induction xs rule: collapse.induct) auto

lemma collapse_strict:
  "sorted_wrt run_order xs \<Longrightarrow> sorted_wrt (\<lambda>a b. Key a < Key b) (collapse xs)"
proof (induction xs rule: collapse.induct)
  case (1 x y rest)
  show ?case
  proof (cases "IsPrefix x \<and> IsPrefix y \<and> Key x = Key y")
    case True
    from "1.prems" have "sorted_wrt run_order (x # rest)" by simp
    with "1.IH"(1) True show ?thesis by simp
  next
    case False
    from "1.prems" have s: "sorted_wrt run_order (y # rest)" and xy: "run_order x y"
      and yr: "\<forall>z \<in> set rest. run_order y z" by simp_all
    from xy False have lt: "Key x < Key y" by (auto simp: run_order_def)
    have "Key x < Key z" if "z \<in> set (collapse (y # rest))" for z
    proof -
      from that collapse_subset have "z = y \<or> z \<in> set rest" by fastforce
      then show ?thesis
      proof
        assume "z = y" with lt show ?thesis by simp
      next
        assume "z \<in> set rest"
        with yr have "Key y \<le> Key z" by (auto simp: run_order_def)
        with lt show ?thesis by simp
      qed
    qed
    with "1.IH"(2)[OF False s] False show ?thesis by auto
  qed
qed simp_all

lemma list_entry_Key: "Key (list_entry p recursive kv) = entry_path p recursive (fst kv)"
  by (simp add: list_entry_def entry_path_def Let_def component_no_delimiter)

lemma list_entry_IsPrefix:
  "IsPrefix (list_entry p recursive kv) \<longleftrightarrow> \<not> recursive \<and> Delimiter \<in> set (drop (length p) (fst kv))"
  by (simp add: list_entry_def Let_def)

lemma list_entry_run_order:
  assumes "has_prefix p (fst a)" "has_prefix p (fst b)" "fst a < fst b"
  shows "run_order (list_entry p recursive a) (list_entry p recursive b)"
proof -
  let ?ra = "drop (length p) (fst a)" and ?rb = "drop (length p) (fst b)"
  have lt: "?ra < ?rb" using assms by (simp add: drop_less_iff)
  show ?thesis
  proof (cases recursive)
    case True
    with lt show ?thesis by (simp add: run_order_def list_entry_Key entry_path_def)
  next
    case False
    have le: "component ?ra \<le> component ?rb" using lt by (rule component_mono)
    show ?thesis
    proof (cases "component ?ra = component ?rb")
      case True
      with component_eq_delimiter[OF lt] False show ?thesis
        by (simp add: run_order_def list_entry_Key list_entry_IsPrefix entry_path_def)
    next
      case ne: False
      with le have "component ?ra < component ?rb" by simp
      with False show ?thesis by (simp add: run_order_def list_entry_Key entry_path_def)
    qed
  qed
qed

lemma entries_run_order:
  assumes "sorted_wrt (<) (map fst store)"
  shows "sorted_wrt run_order
           (map (list_entry p recursive) (filter (\<lambda>kv. has_prefix p (fst kv)) store))"
proof -
  let ?f = "filter (\<lambda>kv. has_prefix p (fst kv)) store"
  have s: "sorted_wrt (\<lambda>a b. fst a < fst b) ?f"
    using assms by (simp add: sorted_wrt_map sorted_wrt_filter)
  have "sorted_wrt (\<lambda>a b. run_order (list_entry p recursive a) (list_entry p recursive b)) ?f"
  proof (rule sorted_wrt_mono_rel[OF _ s])
    fix a b assume "a \<in> set ?f" "b \<in> set ?f" "fst a < fst b"
    then show "run_order (list_entry p recursive a) (list_entry p recursive b)"
      by (simp add: list_entry_run_order)
  qed
  then show ?thesis by (simp add: sorted_wrt_map)
qed

lemma scan_entries_strict:
  assumes "sorted_wrt (<) (map fst store)"
  shows "sorted_wrt (\<lambda>a b. Key a < Key b) (scan_entries store opts)"
  unfolding scan_entries_def
  by (intro sorted_wrt_filter collapse_strict entries_run_order assms)

lemma scan_entries_source:
  assumes "e \<in> set (scan_entries store opts)"
  shows "within_bounds opts e \<and>
         (\<exists>kv \<in> set store. has_prefix (Prefix opts) (fst kv) \<and>
                e = list_entry (Prefix opts) (Recursive opts) kv)"
proof -
  from assms have b: "within_bounds opts e"
    and "e \<in> set (collapse (map (list_entry (Prefix opts) (Recursive opts))
          (filter (\<lambda>kv. has_prefix (Prefix opts) (fst kv)) store)))"
    by (simp_all add: scan_entries_def)
  with collapse_subset have "e \<in> set (map (list_entry (Prefix opts) (Recursive opts))
          (filter (\<lambda>kv. has_prefix (Prefix opts) (fst kv)) store))" by blast
  with b show ?thesis by auto
qed

lemma within_bounds_listed:
  "has_prefix (Prefix opts) (fst kv) \<Longrightarrow>
   within_bounds opts (list_entry (Prefix opts) (Recursive opts) kv) \<longleftrightarrow> listed_key opts (fst kv)"
  by (simp add: within_bounds_def listed_key_def list_entry_Key)

lemma scan_entries_paths:
  "Key ` set (scan_entries store opts) =
     entry_path (Prefix opts) (Recursive opts) ` {k \<in> fst ` set store. listed_key opts k}"
proof (intro set_eqI iffI)
  fix x assume "x \<in> Key ` set (scan_entries store opts)"
  then obtain e where e: "e \<in> set (scan_entries store opts)" "x = Key e" by blast
  from scan_entries_source[OF e(1)] obtain kv where
    kv: "kv \<in> set store" "has_prefix (Prefix opts) (fst kv)"
        "e = list_entry (Prefix opts) (Recursive opts) kv" "within_bounds opts e" by blast
  then have "listed_key opts (fst kv)" using within_bounds_listed by blast
  with kv e show "x \<in> entry_path (Prefix opts) (Recursive opts) ` {k \<in> fst ` set store. listed_key opts k}"
    by (auto simp: list_entry_Key)
next
  fix x assume "x \<in> entry_path (Prefix opts) (Recursive opts) ` {k \<in> fst ` set store. listed_key opts k}"
  then obtain kv where kv: "kv \<in> set store" "listed_key opts (fst kv)"
      "x = entry_path (Prefix opts) (Recursive opts) (fst kv)" by auto
  let ?all = "map (list_entry (Prefix opts) (Recursive opts))
          (filter (\<lambda>kv. has_prefix (Prefix opts) (fst kv)) store)"
  let ?e = "list_entry (Prefix opts) (Recursive opts) kv"
  have hp: "has_prefix (Prefix opts) (fst kv)" using kv(2) by (simp add: listed_key_def)
  then have "?e \<in> set ?all" using kv(1) by auto
  then have "(Key ?e, IsPrefix ?e) \<in> (\<lambda>e. (Key e, IsPrefix e)) ` set (collapse ?all)"
    unfolding collapse_keys by blast
  then obtain e' where e': "e' \<in> set (collapse ?all)" "Key e' = Key ?e" by auto
  have "within_bounds opts ?e" using within_bounds_listed[OF hp] kv(2) by simp
  then have "within_bounds opts e'" using e'(2) by (simp add: within_bounds_def)
  with e' have "e' \<in> set (scan_entries store opts)" by (simp add: scan_entries_def)
  with e'(2) kv(3) show "x \<in> Key ` set (scan_entries store opts)"
    by (auto simp: list_entry_Key intro!: image_eqI[of _ _ e'])
qed

lemma sorted_wrt_take_smallest:
  assumes s: "sorted_wrt (\<lambda>a b. f a < (f b :: string)) xs"
    and x: "x \<in> set xs" and y: "y \<in> set (take n xs)" and lt: "f x < f y"
  shows "x \<in> set (take n xs)"
proof -
  from x obtain i where i: "i < length xs" "xs ! i = x" by (auto simp: in_set_conv_nth)
  from y obtain j where j: "j < length (take n xs)" "take n xs ! j = y" by (auto simp: in_set_conv_nth)
  then have j': "j < n" "j < length xs" "xs ! j = y" by simp_all
  have "i < j"
  proof (rule ccontr)
    assume "\<not> i < j"
    then have "j = i \<or> j < i" by auto
    then show False
    proof
      assume "j = i" with i j' lt show False by simp
    next
      assume "j < i"
      with s i(1) have "f (xs ! j) < f (xs ! i)" by (simp add: sorted_wrt_iff_nth_less)
      with i j' lt show False by simp
    qed
  qed
  with j' i have "i < n" by simp
  with i show ?thesis by (auto simp: in_set_conv_nth intro!: exI[of _ i])
qed

lemma sorted_wrt_take_missing:
  assumes s: "sorted_wrt (\<lambda>a b. f a < (f b :: string)) xs" and n: "n < length xs"
  shows "f (xs ! n) \<notin> f ` set (take n xs)"
proof
  assume "f (xs ! n) \<in> f ` set (take n xs)"
  then obtain j where j: "j < length (take n xs)" "f (take n xs ! j) = f (xs ! n)"
    by (auto simp: in_set_conv_nth)
  then have "j < n" "f (xs ! j) = f (xs ! n)" by simp_all
  moreover from s n \<open>j < n\<close> have "f (xs ! j) < f (xs ! n)" by (simp add: sorted_wrt_iff_nth_less)
  ultimately show False by simp
qed

lemma createListItem_simps:
  "item_Path (createListItem mf e fl) = Key e"
  "item_IsPrefix (createListItem mf e fl) = IsPrefix e"
  by (simp_all add: createListItem_def)

text \<open>
  C4. For a store with ascending, distinct keys, a valid API key and no store error,
  \<^verbatim>\<open>List\<close> answers with items such that:
  \<^item> the paths are strictly ascending in byte order (so no path is listed twice: a run of
    keys sharing the next component gives one entry);
  \<^item> every item is the entry of a stored key under the prefix, with the prefix stripped;
    it is an \<open>IsPrefix\<close> entry exactly when the listing is non-recursive and the rest of
    the key contains the delimiter, and then it ends with the delimiter;
  \<^item> every path is strictly above \<open>start_after\<close> and strictly below \<open>end_before\<close>
    (where given);
  \<^item> at most \<open>limit\<close> items are returned, they are the smallest entries of the
    selection, and \<open>more\<close> is true exactly when some selected key's entry is missing
    from the answer;
  \<^item> the number of items is the limit or the number of distinct entries of the selected
    keys, whichever is smaller, and \<open>more\<close> is true exactly when the limit is the
    smaller one;
  \<^item> in one line: the paths of the answer are the distinct entries of the selected keys
    in ascending order, cut at the limit.
  Here the limit is the requested one, or the store's lookup limit when the request
  gives none or a larger one.
\<close>

theorem Server_List_semantics:
  fixes env store req
  defines "opts \<equiv> \<lparr>Prefix = list_prefix (req_Prefix req), StartAfter = req_StartAfter req,
      EndBefore = req_EndBefore req, Recursive = req_Recursive req, Limit = sint (req_Limit req),
      IncludeValue = (req_MetaFlags req \<noteq> 0)\<rparr>"
  defines "lim \<equiv> (if Limit opts \<le> 0 \<or> Limit opts > list_LookupLimit env
                   then list_LookupLimit env else Limit opts)"
  assumes auth: "list_api_key_valid env" and db: "list_db_err env = None"
    and store: "sorted_wrt (<) (map fst store)"
  shows "\<exists>items is_more. Server_List env store req = Inr (items, is_more)
     \<and> sorted_wrt (<) (map item_Path items)
     \<and> (\<forall>it \<in> set items. \<exists>k \<in> fst ` set store. listed_key opts k \<and>
            item_Path it = entry_path (Prefix opts) (Recursive opts) k \<and>
            (item_IsPrefix it \<longleftrightarrow> \<not> Recursive opts \<and> Delimiter \<in> set (drop (length (Prefix opts)) k)))
     \<and> (\<forall>it \<in> set items.
            (req_StartAfter req = [] \<or> req_StartAfter req < item_Path it) \<and>
            (req_EndBefore req = [] \<or> item_Path it < req_EndBefore req))
     \<and> (\<forall>it \<in> set items.
            if item_IsPrefix it
            then last (item_Path it) = Delimiter \<and>
                 (\<exists>k \<in> fst ` set store. has_prefix (Prefix opts @ item_Path it) k)
            else Prefix opts @ item_Path it \<in> fst ` set store)
     \<and> int (length items) \<le> max 0 lim
     \<and> (\<forall>it \<in> set items. \<forall>k \<in> fst ` set store.
            listed_key opts k \<and> entry_path (Prefix opts) (Recursive opts) k < item_Path it \<longrightarrow>
            entry_path (Prefix opts) (Recursive opts) k \<in> item_Path ` set items)
     \<and> (is_more \<longleftrightarrow>
           (\<exists>k \<in> fst ` set store. listed_key opts k \<and>
               entry_path (Prefix opts) (Recursive opts) k \<notin> item_Path ` set items))
     \<and> length items =
           min (nat lim)
             (card (entry_path (Prefix opts) (Recursive opts) `
                      {k \<in> fst ` set store. listed_key opts k}))
     \<and> (is_more \<longleftrightarrow>
           nat lim < card (entry_path (Prefix opts) (Recursive opts) `
                            {k \<in> fst ` set store. listed_key opts k}))
     \<and> map item_Path items =
           take (nat lim)
             (sorted_list_of_set (entry_path (Prefix opts) (Recursive opts) `
                                    {k \<in> fst ` set store. listed_key opts k}))"
proof -
  let ?entries = "scan_entries store opts"
  let ?raw = "take (nat lim) ?entries"
  let ?mk = "\<lambda>rawItem. createListItem (list_meta env)
               (if IncludeValue opts then rawItem else rawItem\<lparr>Value := Empty\<rparr>) (req_MetaFlags req)"
  let ?items = "map ?mk ?raw"
  let ?more = "nat lim < length ?entries"
  let ?ep = "entry_path (Prefix opts) (Recursive opts)"
  have res: "Server_List env store req = Inr (?items, ?more)"
    using auth db
    by (simp add: Server_List_def ListV2_def Let_def opts_def lim_def comp_def)
  have path: "item_Path (?mk e) = Key e" and isp: "item_IsPrefix (?mk e) = IsPrefix e" for e
    by (simp_all add: createListItem_simps)
  have paths: "map item_Path ?items = map Key ?raw"
    by (simp add: path comp_def)
  have strict: "sorted_wrt (\<lambda>a b. Key a < Key b) ?entries"
    by (rule scan_entries_strict[OF store])
  have pset: "item_Path ` set ?items = Key ` set ?raw"
    using paths by (metis set_map)
  have c1: "sorted_wrt (<) (map item_Path ?items)"
    unfolding paths using strict by (simp add: sorted_wrt_map sorted_wrt_take)
  have src: "\<exists>k \<in> fst ` set store. listed_key opts k \<and> item_Path it = ?ep k \<and>
            (item_IsPrefix it \<longleftrightarrow> \<not> Recursive opts \<and> Delimiter \<in> set (drop (length (Prefix opts)) k))"
    if "it \<in> set ?items" for it
  proof -
    from that obtain e where e: "e \<in> set ?raw" "it = ?mk e" by auto
    then have "e \<in> set ?entries" by (meson in_set_takeD)
    from scan_entries_source[OF this] obtain kv where
      kv: "kv \<in> set store" "has_prefix (Prefix opts) (fst kv)"
          "e = list_entry (Prefix opts) (Recursive opts) kv" "within_bounds opts e" by blast
    then have "listed_key opts (fst kv)" using within_bounds_listed by blast
    with kv e show ?thesis
      by (intro bexI[of _ "fst kv"]) (simp_all add: path isp list_entry_Key list_entry_IsPrefix)
  qed
  have c3: "(req_StartAfter req = [] \<or> req_StartAfter req < item_Path it) \<and>
            (req_EndBefore req = [] \<or> item_Path it < req_EndBefore req)"
    if "it \<in> set ?items" for it
    using src[OF that] by (auto simp: listed_key_def opts_def)
  have c4: "if item_IsPrefix it
            then last (item_Path it) = Delimiter \<and>
                 (\<exists>k \<in> fst ` set store. has_prefix (Prefix opts @ item_Path it) k)
            else Prefix opts @ item_Path it \<in> fst ` set store"
    if "it \<in> set ?items" for it
  proof -
    from src[OF that] obtain k where k: "k \<in> fst ` set store" "listed_key opts k"
      "item_Path it = ?ep k"
      "item_IsPrefix it \<longleftrightarrow> \<not> Recursive opts \<and> Delimiter \<in> set (drop (length (Prefix opts)) k)"
      by blast
    let ?rel = "drop (length (Prefix opts)) k"
    have hp: "has_prefix (Prefix opts) k" using k(2) by (simp add: listed_key_def)
    then have kk: "Prefix opts @ ?rel = k" by (rule has_prefix_append_drop)
    show ?thesis
    proof (cases "item_IsPrefix it")
      case True
      with k have p: "item_Path it = component ?rel" and d: "Delimiter \<in> set ?rel"
        by (simp_all add: entry_path_def)
      have "has_prefix (Prefix opts @ component ?rel) (Prefix opts @ ?rel)"
        using component_has_prefix[of ?rel] by (simp add: has_prefix_def)
      with kk have "has_prefix (Prefix opts @ item_Path it) k" by (simp add: p)
      with True k(1) component_last[OF d] p show ?thesis by auto
    next
      case False
      with k have "item_Path it = ?rel"
        by (auto simp: entry_path_def component_no_delimiter)
      with False kk k(1) show ?thesis by simp
    qed
  qed
  have c5: "int (length ?items) \<le> max 0 lim" by simp
  have all_paths: "Key ` set ?entries = ?ep ` {k \<in> fst ` set store. listed_key opts k}"
    by (rule scan_entries_paths)
  have c6: "?ep k \<in> item_Path ` set ?items"
    if "it \<in> set ?items" "k \<in> fst ` set store" "listed_key opts k" "?ep k < item_Path it" for it k
  proof -
    from that(1) obtain y where y0: "y \<in> set ?raw" "it = ?mk y" by auto
    then have y: "y \<in> set ?raw" "item_Path it = Key y" by (simp_all add: path)
    have "?ep k \<in> ?ep ` {k \<in> fst ` set store. listed_key opts k}"
      using that(2,3) by blast
    then have "?ep k \<in> Key ` set ?entries" unfolding all_paths .
    then obtain x where x: "x \<in> set ?entries" "Key x = ?ep k" by (auto simp: image_iff)
    have lt: "Key x < Key y" using that(4) x(2) y(2) by simp
    have "x \<in> set ?raw" by (rule sorted_wrt_take_smallest[OF strict x(1) y(1) lt])
    then have "Key x \<in> Key ` set ?raw" by (rule imageI)
    then show ?thesis unfolding pset x(2) .
  qed
  have c7: "?more \<longleftrightarrow>
           (\<exists>k \<in> fst ` set store. listed_key opts k \<and> ?ep k \<notin> item_Path ` set ?items)"
  proof
    assume m: ?more
    let ?x = "?entries ! nat lim"
    from m have "?x \<in> set ?entries" by (rule nth_mem)
    then have "Key ?x \<in> Key ` set ?entries" by (rule imageI)
    then have "Key ?x \<in> ?ep ` {k \<in> fst ` set store. listed_key opts k}" unfolding all_paths .
    then obtain k where k: "k \<in> fst ` set store" "listed_key opts k" "Key ?x = ?ep k"
      by (auto simp: image_iff)
    have "Key ?x \<notin> Key ` set ?raw" by (rule sorted_wrt_take_missing[OF strict m])
    then have "?ep k \<notin> item_Path ` set ?items"
      unfolding pset k(3) .
    with k show "\<exists>k \<in> fst ` set store. listed_key opts k \<and> ?ep k \<notin> item_Path ` set ?items" by blast
  next
    assume "\<exists>k \<in> fst ` set store. listed_key opts k \<and> ?ep k \<notin> item_Path ` set ?items"
    then obtain k where k: "k \<in> fst ` set store" "listed_key opts k" "?ep k \<notin> Key ` set ?raw"
      unfolding pset by blast
    have "?ep k \<in> ?ep ` {k \<in> fst ` set store. listed_key opts k}"
      using k(1,2) by blast
    then have "?ep k \<in> Key ` set ?entries" unfolding all_paths .
    with k(3) have ne: "?raw \<noteq> ?entries" by auto
    show ?more
    proof (rule ccontr)
      assume "\<not> ?more"
      then have "?raw = ?entries" by simp
      with ne show False by simp
    qed
  qed
  have "sorted_wrt (<) (map Key ?entries)"
    using strict by (simp add: sorted_wrt_map)
  then have sd: "sorted (map Key ?entries)" "distinct (map Key ?entries)"
    by (simp_all add: strict_sorted_iff)
  then have "sorted_list_of_set (set (map Key ?entries)) = map Key ?entries"
    by (rule sorted_list_of_set.idem_if_sorted_distinct)
  then have sl: "sorted_list_of_set (?ep ` {k \<in> fst ` set store. listed_key opts k}) = map Key ?entries"
    using all_paths by simp
  have c10: "map item_Path ?items =
      take (nat lim) (sorted_list_of_set (?ep ` {k \<in> fst ` set store. listed_key opts k}))"
    unfolding sl paths by (simp add: take_map)
  from sd(2) have "card (set (map Key ?entries)) = length (map Key ?entries)"
    by (rule distinct_card)
  then have count: "card (?ep ` {k \<in> fst ` set store. listed_key opts k}) = length ?entries"
    using all_paths by simp
  have c8: "length ?items = min (nat lim) (card (?ep ` {k \<in> fst ` set store. listed_key opts k}))"
    unfolding count by (simp add: min.commute)
  have c9: "?more \<longleftrightarrow> nat lim < card (?ep ` {k \<in> fst ` set store. listed_key opts k})"
    unfolding count by (rule refl)
  show ?thesis
  proof (intro exI conjI)
    show "Server_List env store req = Inr (?items, ?more)" by (rule res)
    show "sorted_wrt (<) (map item_Path ?items)" by (rule c1)
    show "\<forall>it \<in> set ?items. \<exists>k \<in> fst ` set store. listed_key opts k \<and> item_Path it = ?ep k \<and>
            (item_IsPrefix it \<longleftrightarrow> \<not> Recursive opts \<and> Delimiter \<in> set (drop (length (Prefix opts)) k))"
      using src by blast
    show "\<forall>it \<in> set ?items.
            (req_StartAfter req = [] \<or> req_StartAfter req < item_Path it) \<and>
            (req_EndBefore req = [] \<or> item_Path it < req_EndBefore req)"
      using c3 by blast
    show "\<forall>it \<in> set ?items.
            if item_IsPrefix it
            then last (item_Path it) = Delimiter \<and>
                 (\<exists>k \<in> fst ` set store. has_prefix (Prefix opts @ item_Path it) k)
            else Prefix opts @ item_Path it \<in> fst ` set store"
      using c4 by blast
    show "int (length ?items) \<le> max 0 lim" by (rule c5)
    show "\<forall>it \<in> set ?items. \<forall>k \<in> fst ` set store.
            listed_key opts k \<and> ?ep k < item_Path it \<longrightarrow> ?ep k \<in> item_Path ` set ?items"
      using c6 by blast
    show "?more \<longleftrightarrow>
           (\<exists>k \<in> fst ` set store. listed_key opts k \<and> ?ep k \<notin> item_Path ` set ?items)"
      by (rule c7)
    show "length ?items = min (nat lim) (card (?ep ` {k \<in> fst ` set store. listed_key opts k}))"
      by (rule c8)
    show "?more \<longleftrightarrow> nat lim < card (?ep ` {k \<in> fst ` set store. listed_key opts k})"
      by (rule c9)
    show "map item_Path ?items =
      take (nat lim) (sorted_list_of_set (?ep ` {k \<in> fst ` set store. listed_key opts k}))"
      by (rule c10)
  qed
qed

text \<open>
  The cases of \<^verbatim>\<open>TestServiceList\<close> (\<^verbatim>\<open>pkg/pointerdb/pointerdb_test.go\<close>), on the same
  seven keys put in the same order: the model answers what the test expects.
\<close>

lemma test_store_sorted:
  "test_store =
     [(musik, test_pointer),
      (musik @ ''/album/'' @ song CHR ''3'', test_pointer),
      (musik @ ''/'' @ song CHR ''1'', test_pointer),
      (musik @ ''/'' @ song CHR ''2'', test_pointer),
      (musik @ ''/'' @ song CHR ''4'', test_pointer),
      (sample, test_pointer),
      (video @ ''/movie.mkv'', test_pointer)]"
  by (simp add: test_store_def PutAll_def kv_put_def musik_def song_def sample_def video_def)

lemma test_store_keys_ascending: "sorted_wrt (<) (map fst test_store)"
  unfolding test_store_sorted
  by (simp add: musik_def song_def sample_def video_def)

lemmas list_eval =
  Server_List_def ListV2_def scan_entries_def list_entry_def within_bounds_def has_prefix_def
  createListItem_def setMetadata_def list_prefix_def Delimiter_def listing_def
  test_env_def request_def musik_def song_def sample_def video_def Let_def

lemma TestServiceList_recursive:
  "listing (Server_List test_env test_store (request\<lparr>req_Recursive := True\<rparr>)) =
     Some ([(musik, False), (musik @ ''/album/'' @ song CHR ''3'', False),
            (musik @ ''/'' @ song CHR ''1'', False), (musik @ ''/'' @ song CHR ''2'', False),
            (musik @ ''/'' @ song CHR ''4'', False), (sample, False),
            (video @ ''/movie.mkv'', False)], False)"
  unfolding test_store_sorted by (simp add: list_eval)

lemma TestServiceList_limit:
  "listing (Server_List test_env test_store (request\<lparr>req_Recursive := True, req_Limit := 3\<rparr>)) =
     Some ([(musik, False), (musik @ ''/album/'' @ song CHR ''3'', False),
            (musik @ ''/'' @ song CHR ''1'', False)], True)"
  unfolding test_store_sorted by (simp add: list_eval)

lemma TestServiceList_delimiter:
  "listing (Server_List test_env test_store request) =
     Some ([(musik, False), (musik @ ''/'', True), (sample, False), (video @ ''/'', True)], False)"
  unfolding test_store_sorted by (simp add: list_eval)

lemma TestServiceList_end_before:
  "listing (Server_List test_env test_store (request\<lparr>req_EndBefore := video\<rparr>)) =
     Some ([(musik, False), (musik @ ''/'', True), (sample, False)], False)"
  unfolding test_store_sorted by (simp add: list_eval)

lemma TestServiceList_prefix:
  "listing (Server_List test_env test_store (request\<lparr>req_Prefix := musik @ ''/''\<rparr>)) =
     Some ([(''album/'', True), (song CHR ''1'', False), (song CHR ''2'', False),
            (song CHR ''4'', False)], False)"
  unfolding test_store_sorted by (simp add: list_eval)

lemma TestServiceList_prefix_start_after:
  "listing (Server_List test_env test_store
       (request\<lparr>req_Prefix := musik @ ''/'', req_StartAfter := song CHR ''1''\<rparr>)) =
     Some ([(song CHR ''2'', False), (song CHR ''4'', False)], False)"
  unfolding test_store_sorted by (simp add: list_eval)

lemma TestServiceList_prefix_end_before:
  "listing (Server_List test_env test_store
       (request\<lparr>req_Prefix := musik @ ''/'', req_EndBefore := song CHR ''4''\<rparr>)) =
     Some ([(''album/'', True), (song CHR ''1'', False), (song CHR ''2'', False)], False)"
  unfolding test_store_sorted by (simp add: list_eval)

lemma TestServiceList_prefix_without_delimiter:
  "listing (Server_List test_env test_store
       (request\<lparr>req_Prefix := [CHR ''m'', CHR 0xC3, CHR 0xBC, CHR ''s''], req_Recursive := True,
                req_EndBefore := ''ic/'' @ song CHR ''4'', req_Limit := 1\<rparr>)) =
     Some ([], False)"
  unfolding test_store_sorted by (simp add: list_eval)

text \<open>
  The hypotheses hold for the test's store and a request with a prefix: the answer is
  the four entries under the prefix, the album as a prefix entry, and nothing more.
\<close>

theorem Server_List_semantics_witness:
  "list_api_key_valid test_env \<and> list_db_err test_env = None \<and>
   sorted_wrt (<) (map fst test_store) \<and>
   (\<exists>items is_more.
      Server_List test_env test_store (request\<lparr>req_Prefix := musik @ ''/''\<rparr>) = Inr (items, is_more) \<and>
      sorted_wrt (<) (map item_Path items) \<and>
      length items = 4 \<and>
      map (\<lambda>it. (item_Path it, item_IsPrefix it)) items =
        [(''album/'', True), (song CHR ''1'', False), (song CHR ''2'', False),
         (song CHR ''4'', False)] \<and>
      \<not> is_more)"
proof -
  have a: "list_api_key_valid test_env" and d: "list_db_err test_env = None"
    by (simp_all add: test_env_def)
  obtain items is_more where
    r: "Server_List test_env test_store (request\<lparr>req_Prefix := musik @ ''/''\<rparr>) = Inr (items, is_more)"
    and s: "sorted_wrt (<) (map item_Path items)"
    using Server_List_semantics[OF a d test_store_keys_ascending, of "request\<lparr>req_Prefix := musik @ ''/''\<rparr>"]
    by (elim exE conjE)
  have l: "listing (Inr (items, is_more)) =
     Some ([(''album/'', True), (song CHR ''1'', False), (song CHR ''2'', False),
            (song CHR ''4'', False)], False)"
    using TestServiceList_prefix unfolding r .
  then have m: "map (\<lambda>it. (item_Path it, item_IsPrefix it)) items =
        [(''album/'', True), (song CHR ''1'', False), (song CHR ''2'', False),
         (song CHR ''4'', False)]" and n: "\<not> is_more"
    by (simp_all add: listing_def)
  from m have "length (map (\<lambda>it. (item_Path it, item_IsPrefix it)) items) = 4"
    by simp
  then have len: "length items = 4" by simp
  from r s len m n have "\<exists>items is_more.
      Server_List test_env test_store (request\<lparr>req_Prefix := musik @ ''/''\<rparr>) = Inr (items, is_more) \<and>
      sorted_wrt (<) (map item_Path items) \<and>
      length items = 4 \<and>
      map (\<lambda>it. (item_Path it, item_IsPrefix it)) items =
        [(''album/'', True), (song CHR ''1'', False), (song CHR ''2'', False),
         (song CHR ''4'', False)] \<and>
      \<not> is_more"
    by (intro exI conjI)
  with a d test_store_keys_ascending show ?thesis by (intro conjI)
qed

section \<open>Properties of the path encryption\<close>

text \<open>
  Splitting and joining are inverse to each other: joining the components of a path
  gives the path, and splitting a join of delimiter-free components gives the components.
\<close>

lemma SplitPath_not_Nil: "SplitPath p \<noteq> []"
  by (induction p) (auto split: list.splits)

lemma JoinPaths_Cons: "xs \<noteq> [] \<Longrightarrow> JoinPaths (x # xs) = x @ ''/'' @ JoinPaths xs"
  by (cases xs) simp_all

lemma JoinPaths_SplitPath: "JoinPaths (SplitPath p) = p"
proof (induction p)
  case Nil
  then show ?case by simp
next
  case (Cons c cs)
  obtain x xs where s: "SplitPath cs = x # xs" using SplitPath_not_Nil[of cs] by (cases "SplitPath cs") auto
  show ?case
  proof (cases "c = CHR ''/''")
    case True
    then show ?thesis using Cons.IH SplitPath_not_Nil[of cs] by (simp add: JoinPaths_Cons)
  next
    case False
    have "JoinPaths ((c # x) # xs) = c # JoinPaths (x # xs)" by (cases xs) simp_all
    with False s Cons.IH show ?thesis by simp
  qed
qed

lemma SplitPath_no_delimiter: "CHR ''/'' \<notin> set x \<Longrightarrow> SplitPath (x @ CHR ''/'' # p) = x # SplitPath p"
  by (induction x) (auto split: list.splits)

lemma SplitPath_single: "CHR ''/'' \<notin> set x \<Longrightarrow> SplitPath x = [x]"
  by (induction x) (auto split: list.splits)

lemma SplitPath_JoinPaths:
  "xs \<noteq> [] \<Longrightarrow> \<forall>x \<in> set xs. CHR ''/'' \<notin> set x \<Longrightarrow> SplitPath (JoinPaths xs) = xs"
proof (induction xs rule: JoinPaths.induct)
  case 1
  then show ?case by simp
next
  case (2 x)
  then show ?case by (simp add: SplitPath_single)
next
  case (3 x y rest)
  then show ?case by (simp add: SplitPath_no_delimiter)
qed

lemma components_round_trip:
  assumes "cipher_ok c"
  shows "\<exists>cts. encrypt_components c key comps = Inr cts \<and> length cts = length comps \<and>
               (\<forall>ct \<in> set cts. CHR ''/'' \<notin> set ct) \<and>
               decrypt_components c key cts = Inr comps"
proof (induction comps arbitrary: key)
  case Nil
  then show ?case by simp
next
  case (Cons part rest)
  from assms obtain ct where ct: "encryptPathComponent c key part = Inr ct"
      "decryptPathComponent c key ct = Inr part" "CHR ''/'' \<notin> set ct"
    unfolding cipher_ok_def by blast
  from assms obtain key' where k: "DeriveKey c key part = Inr key'"
    unfolding cipher_ok_def by blast
  from Cons.IH[of key'] obtain cts where cts: "encrypt_components c key' rest = Inr cts"
      "length cts = length rest" "\<forall>ct \<in> set cts. CHR ''/'' \<notin> set ct"
      "decrypt_components c key' cts = Inr rest" by blast
  show ?case
    by (rule exI[of _ "ct # cts"]) (simp add: ct k cts)
qed

text \<open>
  C8. For a component cipher that decrypts what it encrypts, produces ciphertexts
  without the delimiter, and a key derivation that succeeds: for every path \<open>P\<close> (the
  empty path and paths with empty components included) and every key \<open>K\<close>, encryption
  succeeds and decrypting the encrypted path under \<open>K\<close> returns \<open>P\<close>.
\<close>

theorem path_encryption_round_trip:
  assumes "cipher_ok c"
  shows "\<exists>E. EncryptPath c P K = Inr E \<and> DecryptPath c E K = Inr P"
proof -
  from components_round_trip[OF assms, of K "SplitPath P"] obtain cts where
    cts: "encrypt_components c K (SplitPath P) = Inr cts" "length cts = length (SplitPath P)"
      "\<forall>ct \<in> set cts. CHR ''/'' \<notin> set ct" "decrypt_components c K cts = Inr (SplitPath P)"
    by blast
  have "cts \<noteq> []" using cts(2) SplitPath_not_Nil[of P] by auto
  then have "SplitPath (JoinPaths cts) = cts" using cts(3) by (rule SplitPath_JoinPaths)
  then show ?thesis
    by (simp add: EncryptPath_def DecryptPath_def cts JoinPaths_SplitPath)
qed

lemma of_char_bound: "(of_char c :: nat) < 256"
  by (metis of_char_mod_256 mod_less_divisor zero_less_numeral)

lemma encode_char_codes:
  "(97 + (of_char c :: nat) div 16) mod 256 = 97 + of_char c div 16"
  "(97 + (of_char c :: nat) mod 16) mod 256 = 97 + of_char c mod 16"
proof -
  let ?n = "of_char c :: nat"
  have "?n div 16 < 16" using of_char_bound[of c] by (simp add: less_mult_imp_div_less)
  then show "(97 + ?n div 16) mod 256 = 97 + ?n div 16" by simp
  have "?n mod 16 < 16" by simp
  then have "97 + ?n mod 16 < 256" by linarith
  then show "(97 + ?n mod 16) mod 256 = 97 + ?n mod 16" by simp
qed

lemma decode_encode_char: "decode_chars (encode_char c @ rest) = c # decode_chars rest"
proof -
  let ?n = "of_char c :: nat"
  have "(char_of (?n div 16 * 16 + ?n mod 16) :: char) = c"
    by simp
  then show ?thesis by (simp add: encode_char_def encode_char_codes)
qed

lemma decode_encode: "decode_chars (concat (map encode_char z)) = z"
  by (induction z) (simp_all add: decode_encode_char)

lemma char_of_not_delimiter:
  assumes "(x :: nat) mod 256 = x" and "97 \<le> x"
  shows "char_of x \<noteq> CHR ''/''"
proof
  assume "char_of x = CHR ''/''"
  then have "(of_char (char_of x :: char) :: nat) = of_char CHR ''/''" by simp
  then have "x mod 256 = 47" by (simp add: of_char_of)
  with assms show False by simp
qed

lemma encode_char_no_delimiter: "CHR ''/'' \<notin> set (encode_char c)"
  using char_of_not_delimiter[OF encode_char_codes(1)[of c]]
        char_of_not_delimiter[OF encode_char_codes(2)[of c]]
  by (auto simp: encode_char_def)

lemma decode_encode_append:
  "decode_chars (concat (map encode_char k) @ concat (map encode_char x)) = k @ x"
  using decode_encode[of "k @ x"] by simp

lemma toy_cipher_ok: "cipher_ok toy_cipher"
  unfolding cipher_ok_def
  by (auto simp: toy_cipher_def decode_encode_append encode_char_no_delimiter)

text \<open>
  A cipher that meets the hypotheses (it authenticates the key and writes each byte as
  two letters), on a path of \<^verbatim>\<open>TestEncryption\<close>'s kind, with a leading delimiter and an
  empty component.
\<close>

theorem path_encryption_round_trip_witness:
  "cipher_ok toy_cipher \<and>
   (\<exists>E. EncryptPath toy_cipher ''/fold1//file.txt'' ''secret'' = Inr E \<and>
        DecryptPath toy_cipher E ''secret'' = Inr ''/fold1//file.txt'')"
  using toy_cipher_ok path_encryption_round_trip[OF toy_cipher_ok, of "''/fold1//file.txt''" "''secret''"]
  by (intro conjI)

section \<open>Properties of the audit verifier\<close>

text \<open>
  The comparing loop, on a corrected vector as long as the originals: it reports the
  number of every corrected share whose data differs from the original at its index.
\<close>

lemma altered_zip:
  "length corrected = length originals \<Longrightarrow>
   altered originals corrected =
     Inr (map (\<lambda>(s, c). Number c) (filter (\<lambda>(s, c). Data s \<noteq> Share_Data c) (zip originals corrected)))"
  by (induction originals corrected rule: altered.induct) auto

lemma reported_numbers:
  assumes "map Number corrected = map PieceNumber originals"
  shows "map (\<lambda>(s, c). Number c) (filter P (zip originals corrected)) =
         map (\<lambda>(s, c). PieceNumber s) (filter P (zip originals corrected))"
proof -
  have len: "length corrected = length originals"
    using assms by (metis length_map)
  have "\<forall>(s, c) \<in> set (zip originals corrected). Number c = PieceNumber s"
  proof (clarify)
    fix s c assume "(s, c) \<in> set (zip originals corrected)"
    then obtain i where i: "i < length originals" "originals ! i = s" "corrected ! i = c"
      using len by (auto simp: set_zip)
    have "map Number corrected ! i = map PieceNumber originals ! i" using assms by simp
    then show "Number c = PieceNumber s" using i len by simp
  qed
  then show ?thesis by (auto intro!: map_cong)
qed

lemma comprehension_filter:
  "concat (map (\<lambda>x. if P x then [f x] else []) xs) = map f (filter P xs)"
  by (induction xs) simp_all

lemma ids_at_in_range:
  "\<forall>p \<in> set ps. 0 \<le> p \<and> p < int (length nodes) \<Longrightarrow>
   ids_at nodes ps = Inr (map (\<lambda>p. GetId (nodes ! nat p)) ps)"
  by (induction ps) (simp_all add: node_at_def)

text \<open>
  \<^verbatim>\<open>verify\<close>, when every share was downloaded: no node is offline, and the failed nodes
  are the nodes at the piece numbers \<^verbatim>\<open>auditShares\<close> reports.
\<close>

lemma verify_failed_nodes:
  assumes "DownloadShares env ptr stripeIndex = Inr (shares, nodes)"
      and "Remote ptr = Some seg"
      and "\<forall>s \<in> set shares. Error s = None"
      and "auditShares env (sint (MinReq (Redundancy seg))) (sint (Total (Redundancy seg))) shares
             = Inr pieceNums"
      and "\<forall>p \<in> set pieceNums. 0 \<le> p \<and> p < int (length nodes)"
  shows "verify env stripeIndex ptr =
           Inr \<lparr>offline = [],
                failed = map (\<lambda>p. GetId (nodes ! nat p)) pieceNums,
                success = getSuccessNodes nodes (map (\<lambda>p. GetId (nodes ! nat p)) pieceNums) []\<rparr>"
proof -
  have "filter (\<lambda>s. Error s \<noteq> None) shares = []"
    using assms(3) by (simp add: filter_empty_conv)
  then show ?thesis
    using assms(1,2,4) ids_at_in_range[OF assms(5)] by (simp add: verify_def)
qed

text \<open>
  When every share was downloaded: whatever \<^verbatim>\<open>Correct\<close> is, if it succeeds and
  returns the shares under their numbers in the order given, \<^verbatim>\<open>auditShares\<close> returns the
  piece numbers of the shares whose data differs from the share returned at their index.
\<close>

lemma auditShares_all_downloaded:
  assumes "NewFEC env required total' = Inr f"
      and "\<forall>s \<in> set originals. Error s = None"
      and "Correct env f (map copy_share originals) = Inr corrected"
      and "map Number corrected = map PieceNumber originals"
  shows "auditShares env required total' originals =
           Inr [PieceNumber s. (s, c) \<leftarrow> zip originals corrected, Data s \<noteq> Share_Data c]"
proof -
  have len: "length corrected = length originals"
    using assms(4) by (metis length_map)
  have "auditShares env required total' originals = altered originals corrected"
    using assms(1,3) by (simp add: auditShares_def makeCopies_def)
  also have "\<dots> = Inr (map (\<lambda>(s, c). PieceNumber s)
                        (filter (\<lambda>(s, c). Data s \<noteq> Share_Data c) (zip originals corrected)))"
    using altered_zip[OF len] reported_numbers[OF assms(4)] by simp
  also have "map (\<lambda>(s, c). PieceNumber s)
               (filter (\<lambda>(s, c). Data s \<noteq> Share_Data c) (zip originals corrected)) =
             [PieceNumber s. (s, c) \<leftarrow> zip originals corrected, Data s \<noteq> Share_Data c]"
    by (simp add: case_prod_unfold comprehension_filter)
  finally show ?thesis .
qed

text \<open>
  When a download failed: \<^verbatim>\<open>makeCopies\<close> leaves a share with number 0 and no data at
  that index, whatever the piece number was. Whatever \<^verbatim>\<open>Correct\<close> is: if it fails, the
  audit fails with its error; if it succeeds and the share it returns at that index has
  data, \<^verbatim>\<open>auditShares\<close> reports the number of that returned share.
\<close>

lemma copy_share_offline:
  "Error original \<noteq> None \<Longrightarrow> copy_share original = \<lparr>Number = 0, Share_Data = []\<rparr>"
  by (simp add: copy_share_def)

lemma auditShares_Correct_error:
  assumes "NewFEC env required total' = Inr f"
      and "Correct env f (map copy_share originals) = Inl e"
  shows "auditShares env required total' originals = Inl e"
  using assms by (simp add: auditShares_def makeCopies_def)

lemma auditShares_blank_replaced:
  assumes "NewFEC env required total' = Inr f"
      and "Correct env f (map copy_share originals) = Inr corrected"
      and "length corrected = length originals"
      and "i < length originals" and "Data (originals ! i) \<noteq> Share_Data (corrected ! i)"
  shows "\<exists>pieceNums. auditShares env required total' originals = Inr pieceNums \<and>
           Number (corrected ! i) \<in> set pieceNums"
proof -
  have "auditShares env required total' originals = altered originals corrected"
    using assms(1,2) by (simp add: auditShares_def makeCopies_def)
  moreover have "(originals ! i, corrected ! i) \<in> set (zip originals corrected)"
    using assms(3,4) by (auto simp: set_zip)
  ultimately show ?thesis
    using altered_zip[OF assms(3)] assms(5) by (auto simp: image_iff intro!: bexI[of _ "(originals ! i, corrected ! i)"])
qed

text \<open>
  The audit of one stripe under the \<open>(2, 4)\<close> code. The four shares are those of the
  encoding. With all four downloaded and none altered, no piece is reported; with one
  of them altered, whichever it is, \<^verbatim>\<open>Correct\<close> returns the shares of the encoding and
  exactly the number of the altered piece is reported.
\<close>

lemma auditShares_Correct_ok:
  assumes "NewFEC env required total' = Inr f"
      and "Correct env f (map copy_share originals) = Inr corrected"
  shows "auditShares env required total' originals = altered originals corrected"
  using assms by (simp add: auditShares_def makeCopies_def)

lemma stripe_shares_encoded:
  "map Data stripe_shares = encode_stripe rs_2_4 [F1, F2, F3, F4]"
  "map Share_Data encoded_shares = encode_stripe rs_2_4 [F1, F2, F3, F4]"
  by code_simp+

lemma NewFEC_2_4: "NewFEC (audit_2_4 shares) 2 4 = Inr fec_2_4"
  by (simp add: audit_2_4_def NewFEC_over_def fec_2_4_def)

lemma Correct_untouched:
  "FEC_Correct fec_2_4 (map copy_share stripe_shares) = Inr encoded_shares"
  by code_simp

lemma Correct_tampered:
  "FEC_Correct fec_2_4 (map copy_share (tampered 0)) = Inr encoded_shares"
  "FEC_Correct fec_2_4 (map copy_share (tampered 1)) = Inr encoded_shares"
  "FEC_Correct fec_2_4 (map copy_share (tampered 2)) = Inr encoded_shares"
  "FEC_Correct fec_2_4 (map copy_share (tampered 3)) = Inr encoded_shares"
  by code_simp+

lemma auditShares_untouched:
  "auditShares (audit_2_4 stripe_shares) 2 4 stripe_shares = Inr []"
proof -
  have "Correct (audit_2_4 stripe_shares) fec_2_4 (map copy_share stripe_shares) = Inr encoded_shares"
    using Correct_untouched by (simp add: audit_2_4_def)
  from auditShares_Correct_ok[OF NewFEC_2_4 this] show ?thesis
    by (simp add: stripe_shares_def encoded_shares_def)
qed

lemma auditShares_tampered:
  "auditShares (audit_2_4 (tampered 0)) 2 4 (tampered 0) = Inr [0]"
  "auditShares (audit_2_4 (tampered 1)) 2 4 (tampered 1) = Inr [1]"
  "auditShares (audit_2_4 (tampered 2)) 2 4 (tampered 2) = Inr [2]"
  "auditShares (audit_2_4 (tampered 3)) 2 4 (tampered 3) = Inr [3]"
proof -
  have c: "Correct (audit_2_4 (tampered i)) fec_2_4 (map copy_share (tampered j)) =
           FEC_Correct fec_2_4 (map copy_share (tampered j))" for i j
    by (simp add: audit_2_4_def)
  show "auditShares (audit_2_4 (tampered 0)) 2 4 (tampered 0) = Inr [0]"
    using auditShares_Correct_ok[OF NewFEC_2_4 c[of 0 0, unfolded Correct_tampered]]
    by (simp add: tampered_def stripe_shares_def encoded_shares_def)
  show "auditShares (audit_2_4 (tampered 1)) 2 4 (tampered 1) = Inr [1]"
    using auditShares_Correct_ok[OF NewFEC_2_4 c[of 1 1, unfolded Correct_tampered]]
    by (simp add: tampered_def stripe_shares_def encoded_shares_def)
  show "auditShares (audit_2_4 (tampered 2)) 2 4 (tampered 2) = Inr [2]"
    using auditShares_Correct_ok[OF NewFEC_2_4 c[of 2 2, unfolded Correct_tampered]]
    by (simp add: tampered_def stripe_shares_def encoded_shares_def)
  show "auditShares (audit_2_4 (tampered 3)) 2 4 (tampered 3) = Inr [3]"
    using auditShares_Correct_ok[OF NewFEC_2_4 c[of 3 3, unfolded Correct_tampered]]
    by (simp add: tampered_def stripe_shares_def encoded_shares_def)
qed

lemma verify_results:
  assumes "DownloadShares env ptr stripeIndex = Inr (shares, nodes)"
      and "ids_at nodes (map PieceNumber (filter (\<lambda>s. Error s \<noteq> None) shares)) = Inr offline_nodes"
      and "Remote ptr = Some seg"
      and "auditShares env (sint (MinReq (Redundancy seg))) (sint (Total (Redundancy seg))) shares
             = Inr pieceNums"
      and "ids_at nodes pieceNums = Inr failed_nodes"
  shows "verify env stripeIndex ptr =
           Inr \<lparr>offline = offline_nodes, failed = failed_nodes,
                success = getSuccessNodes nodes failed_nodes offline_nodes\<rparr>"
  unfolding verify_def assms(1) by (simp del: not_None_eq add: assms(2-5))

lemma audited_pointer_remote:
  "\<exists>seg. Remote audited_pointer = Some seg \<and> sint (MinReq (Redundancy seg)) = 2 \<and>
         sint (Total (Redundancy seg)) = 4"
  by (simp add: audited_pointer_def makeRemotePointer_def rs_2_3_3_4_def)

lemma verify_tampered_piece:
  "verify (audit_2_4 (tampered 2)) 0 audited_pointer =
     Inr \<lparr>offline = [], failed = [''n2''], success = [''n0'', ''n1'', ''n3'']\<rparr>"
proof -
  obtain seg where seg: "Remote audited_pointer = Some seg"
      "sint (MinReq (Redundancy seg)) = 2" "sint (Total (Redundancy seg)) = 4"
    using audited_pointer_remote by blast
  have d: "DownloadShares (audit_2_4 (tampered 2)) audited_pointer 0 = Inr (tampered 2, four_nodes)"
    by (simp add: audit_2_4_def)
  have e: "\<forall>s \<in> set (tampered 2). Error s = None"
    by (simp add: tampered_def stripe_shares_def)
  have a: "auditShares (audit_2_4 (tampered 2)) (sint (MinReq (Redundancy seg)))
             (sint (Total (Redundancy seg))) (tampered 2) = Inr [2]"
    using auditShares_tampered(3) seg(2,3) by simp
  have rng: "\<forall>p \<in> set [2]. 0 \<le> p \<and> p < int (length four_nodes)"
    by (simp add: four_nodes_def)
  have n: "map (\<lambda>p. GetId (four_nodes ! nat p)) [2] = [''n2'']"
    by (simp add: four_nodes_def mk_node_def)
  have s: "getSuccessNodes four_nodes [''n2''] [] = [''n0'', ''n1'', ''n3'']"
    by (simp add: getSuccessNodes_def four_nodes_def mk_node_def)
  show ?thesis
    using verify_failed_nodes[OF d seg(1) e a rng] by (simp only: n s)
qed

text \<open>
  C7, at the input where the code departs from it. The download of piece 2 failed; the
  pieces 0, 1 and 3 were downloaded and are the shares of the encoding, so that three
  provided shares, more than \<open>k = 2\<close>, are uncorrupted and no piece was altered.
  \<^verbatim>\<open>makeCopies\<close> leaves the share \<open>{Number: 0, Data: nil}\<close> at index 2; \<^verbatim>\<open>Correct\<close> gives
  it the data of share 0; the comparing loop finds that data different from the
  missing data of the original and appends the share's number, 0. The audit reports
  piece 0, a piece whose downloaded content agrees with the reconstructed share, and
  \<^verbatim>\<open>verify\<close> counts node \<open>n0\<close> as failed and leaves it out of the successes.
\<close>

theorem auditShares_offline_share:
  "[(PieceNumber s, Data s). s \<leftarrow> one_offline, Error s = None] =
     [(0, encode_stripe rs_2_4 [F1, F2, F3, F4] ! 0), (1, encode_stripe rs_2_4 [F1, F2, F3, F4] ! 1),
      (3, encode_stripe rs_2_4 [F1, F2, F3, F4] ! 3)] \<and>
   makeCopies one_offline =
     Inr [\<lparr>Number = 0, Share_Data = [F1, F2]\<rparr>, \<lparr>Number = 1, Share_Data = [F3, F4]\<rparr>,
          \<lparr>Number = 0, Share_Data = []\<rparr>, \<lparr>Number = 3, Share_Data = [F2, F3]\<rparr>] \<and>
   auditShares (audit_2_4 one_offline) 2 4 one_offline = Inr [0] \<and>
   verify (audit_2_4 one_offline) 0 audited_pointer =
     Inr \<lparr>offline = [''n2''], failed = [''n0''], success = [''n1'', ''n3'']\<rparr>"
proof -
  have enc: "encode_stripe rs_2_4 [F1, F2, F3, F4] = [[F1, F2], [F3, F4], [F0, F1], [F2, F3]]"
    by code_simp
  have copies: "map copy_share one_offline =
     [\<lparr>Number = 0, Share_Data = [F1, F2]\<rparr>, \<lparr>Number = 1, Share_Data = [F3, F4]\<rparr>,
      \<lparr>Number = 0, Share_Data = []\<rparr>, \<lparr>Number = 3, Share_Data = [F2, F3]\<rparr>]"
    by (simp add: one_offline_def stripe_shares_def copy_share_def)
  have fc: "FEC_Correct fec_2_4
     [\<lparr>Number = 0, Share_Data = [F1, F2]\<rparr>, \<lparr>Number = 1, Share_Data = [F3, F4]\<rparr>,
      \<lparr>Number = 0, Share_Data = []\<rparr>, \<lparr>Number = 3, Share_Data = [F2, F3]\<rparr>] =
     Inr [\<lparr>Number = 0, Share_Data = [F1, F2]\<rparr>, \<lparr>Number = 1, Share_Data = [F3, F4]\<rparr>,
          \<lparr>Number = 0, Share_Data = [F1, F2]\<rparr>, \<lparr>Number = 3, Share_Data = [F2, F3]\<rparr>]"
    by code_simp
  have c: "Correct (audit_2_4 one_offline) fec_2_4 (map copy_share one_offline) =
     Inr [\<lparr>Number = 0, Share_Data = [F1, F2]\<rparr>, \<lparr>Number = 1, Share_Data = [F3, F4]\<rparr>,
          \<lparr>Number = 0, Share_Data = [F1, F2]\<rparr>, \<lparr>Number = 3, Share_Data = [F2, F3]\<rparr>]"
    unfolding copies using fc by (simp add: audit_2_4_def)
  have a: "auditShares (audit_2_4 one_offline) 2 4 one_offline = Inr [0]"
    using auditShares_Correct_ok[OF NewFEC_2_4 c]
    by (simp add: one_offline_def stripe_shares_def)
  obtain seg where seg: "Remote audited_pointer = Some seg"
      "sint (MinReq (Redundancy seg)) = 2" "sint (Total (Redundancy seg)) = 4"
    using audited_pointer_remote by blast
  have off: "map PieceNumber (filter (\<lambda>s. Error s \<noteq> None) one_offline) = [2]"
    by (simp del: not_None_eq add: one_offline_def stripe_shares_def)
  have ids: "ids_at four_nodes [2] = Inr [''n2'']" "ids_at four_nodes [0] = Inr [''n0'']"
    by (simp_all add: node_at_def four_nodes_def mk_node_def)
  have s: "getSuccessNodes four_nodes [''n0''] [''n2''] = [''n1'', ''n3'']"
    by (simp add: getSuccessNodes_def four_nodes_def mk_node_def)
  have dl: "DownloadShares (audit_2_4 one_offline) audited_pointer 0 = Inr (one_offline, four_nodes)"
    by (simp add: audit_2_4_def)
  have a': "auditShares (audit_2_4 one_offline) (sint (MinReq (Redundancy seg)))
              (sint (Total (Redundancy seg))) one_offline = Inr [0]"
    using a seg(2,3) by simp
  have v: "verify (audit_2_4 one_offline) 0 audited_pointer =
     Inr \<lparr>offline = [''n2''], failed = [''n0''], success = [''n1'', ''n3'']\<rparr>"
    using verify_results[OF dl ids(1)[folded off] seg(1) a' ids(2)] by (simp only: s)
  have d: "[(PieceNumber s, Data s). s \<leftarrow> one_offline, Error s = None] =
     [(0, encode_stripe rs_2_4 [F1, F2, F3, F4] ! 0), (1, encode_stripe rs_2_4 [F1, F2, F3, F4] ! 1),
      (3, encode_stripe rs_2_4 [F1, F2, F3, F4] ! 3)]"
    unfolding enc by (simp add: one_offline_def stripe_shares_def)
  have m: "makeCopies one_offline =
     Inr [\<lparr>Number = 0, Share_Data = [F1, F2]\<rparr>, \<lparr>Number = 1, Share_Data = [F3, F4]\<rparr>,
          \<lparr>Number = 0, Share_Data = []\<rparr>, \<lparr>Number = 3, Share_Data = [F2, F3]\<rparr>]"
    using copies by (simp add: makeCopies_def)
  from d m a v show ?thesis by (intro conjI)
qed

section \<open>Properties of the erasure scheme\<close>

text \<open>
  Polynomials of degree below \<open>n\<close> that agree at \<open>n\<close> distinct points are equal: dividing
  by \<open>X - r\<close> leaves the value at \<open>r\<close>, so a list of at most \<open>n\<close> coefficients with \<open>n\<close>
  distinct roots gives the zero function.
\<close>

lemma synthetic_division:
  "\<exists>qs. length qs = length cs - 1 \<and> (\<forall>x. peval cs x = (x - r) * peval qs x + peval cs r)"
proof (induction cs)
  case Nil
  show ?case by (intro exI[of _ "[]"]) simp
next
  case (Cons c cs)
  then obtain qs where qs: "length qs = length cs - 1"
      "\<forall>x. peval cs x = (x - r) * peval qs x + peval cs r" by blast
  show ?case
  proof (cases cs)
    case Nil
    then show ?thesis by (intro exI[of _ "[]"]) simp
  next
    case (Cons d ds)
    have "\<forall>x. peval (c # cs) x = (x - r) * peval (peval cs r # qs) x + peval (c # cs) r"
    proof
      fix x
      have e: "peval cs x = (x - r) * peval qs x + peval cs r"
        using qs(2) by blast
      have "peval (c # cs) x = c + x * peval cs x"
        by simp
      also have "\<dots> = c + x * ((x - r) * peval qs x + peval cs r)"
        by (subst e) (rule refl)
      also have "\<dots> = (x - r) * (peval cs r + x * peval qs x) + (c + r * peval cs r)"
        by (simp add: algebra_simps)
      finally show "peval (c # cs) x = (x - r) * peval (peval cs r # qs) x + peval (c # cs) r"
        by simp
    qed
    moreover have "length (peval cs r # qs) = length (c # cs) - 1"
      using qs(1) Cons by simp
    ultimately show ?thesis by blast
  qed
qed

lemma roots_zero:
  "length cs \<le> length rs \<Longrightarrow> distinct rs \<Longrightarrow> \<forall>r \<in> set rs. peval cs r = 0 \<Longrightarrow> peval cs x = 0"
proof (induction rs arbitrary: cs x)
  case Nil
  then show ?case by simp
next
  case (Cons r rs)
  obtain qs where qs: "length qs = length cs - 1"
      "\<forall>x. peval cs x = (x - r) * peval qs x + peval cs r"
    using synthetic_division[of cs r] by blast
  have r0: "peval cs r = 0" using Cons.prems(3) by simp
  have "\<forall>r' \<in> set rs. peval qs r' = 0"
  proof
    fix r' assume r': "r' \<in> set rs"
    then have "r' \<noteq> r" using Cons.prems(2) by auto
    moreover have "(r' - r) * peval qs r' = 0"
      using qs(2)[rule_format, of r'] r0 Cons.prems(3) r' by simp
    ultimately show "peval qs r' = 0" by simp
  qed
  moreover have "length qs \<le> length rs" using qs(1) Cons.prems(1) by simp
  moreover have "distinct rs" using Cons.prems(2) by simp
  ultimately have "peval qs x = 0" using Cons.IH by blast
  then show ?case using qs(2)[rule_format, of x] r0 by simp
qed

text \<open>
  The functions given by at most \<open>n\<close> coefficients are closed under sums and multiples;
  a product of \<open>m\<close> linear factors needs at most \<open>m + 1\<close> coefficients. So the
  interpolation through \<open>n\<close> points is given by at most \<open>n\<close> coefficients.
\<close>

lemma is_poly_mono: "is_poly n f \<Longrightarrow> n \<le> m \<Longrightarrow> is_poly m f"
  unfolding is_poly_def by (meson le_trans)

lemma is_poly_zero: "is_poly n (\<lambda>x. 0)"
  unfolding is_poly_def by (intro exI[of _ "[]"]) simp

lemma is_poly_const: "is_poly (Suc n) (\<lambda>x. c)"
  unfolding is_poly_def by (intro exI[of _ "[c]"]) simp

lemma peval_scale: "peval (map (\<lambda>a. c * a) cs) x = c * peval cs x"
  by (induction cs) (simp_all add: algebra_simps)

lemma is_poly_scale: "is_poly n f \<Longrightarrow> is_poly n (\<lambda>x. c * f x)"
  unfolding is_poly_def
proof (elim exE conjE)
  fix cs assume "length cs \<le> n" "\<forall>x. f x = peval cs x"
  then show "\<exists>cs. length cs \<le> n \<and> (\<forall>x. c * f x = peval cs x)"
    by (intro exI[of _ "map (\<lambda>a. c * a) cs"]) (simp add: peval_scale)
qed

lemma peval_padd: "peval (padd cs ds) x = peval cs x + peval ds x"
  by (induction cs ds rule: padd.induct) (simp_all add: algebra_simps)

lemma length_padd: "length (padd cs ds) = max (length cs) (length ds)"
  by (induction cs ds rule: padd.induct) simp_all

lemma is_poly_add: "is_poly n f \<Longrightarrow> is_poly n g \<Longrightarrow> is_poly n (\<lambda>x. f x + g x)"
  unfolding is_poly_def
proof (elim exE conjE)
  fix cs ds assume "length cs \<le> n" "\<forall>x. f x = peval cs x" "length ds \<le> n" "\<forall>x. g x = peval ds x"
  then show "\<exists>cs. length cs \<le> n \<and> (\<forall>x. f x + g x = peval cs x)"
    by (intro exI[of _ "padd cs ds"]) (simp add: peval_padd length_padd)
qed

lemma is_poly_linear: "is_poly n f \<Longrightarrow> is_poly (Suc n) (\<lambda>x. (x - a) * c * f x)"
  unfolding is_poly_def
proof (elim exE conjE)
  fix cs assume cs: "length cs \<le> n" "\<forall>x. f x = peval cs x"
  have "\<forall>x. (x - a) * c * f x = peval (padd (0 # map (\<lambda>b. c * b) cs) (map (\<lambda>b. (- a * c) * b) cs)) x"
  proof
    fix x
    have "peval (padd (0 # map (\<lambda>b. c * b) cs) (map (\<lambda>b. (- a * c) * b) cs)) x
          = x * (c * peval cs x) + (- a * c) * peval cs x"
      by (simp only: peval_padd peval.simps peval_scale add_0)
    also have "\<dots> = (x - a) * c * f x"
      using cs(2) by (simp add: algebra_simps)
    finally show "(x - a) * c * f x = peval (padd (0 # map (\<lambda>b. c * b) cs) (map (\<lambda>b. (- a * c) * b) cs)) x"
      by simp
  qed
  moreover have "length (padd (0 # map (\<lambda>b. c * b) cs) (map (\<lambda>b. (- a * c) * b) cs)) \<le> Suc n"
    using cs(1) by (simp add: length_padd)
  ultimately show "\<exists>cs. length cs \<le> Suc n \<and> (\<forall>x. (x - a) * c * f x = peval cs x)"
    by blast
qed

lemma is_poly_sum_list:
  "\<forall>y \<in> set ys. is_poly n (g y) \<Longrightarrow> is_poly n (\<lambda>x. sum_list (map (\<lambda>y. g y x) ys))"
proof (induction ys)
  case Nil
  then show ?case by (simp add: is_poly_zero)
next
  case (Cons y ys)
  then show ?case using is_poly_add[of n "g y" "\<lambda>x. sum_list (map (\<lambda>y. g y x) ys)"] by simp
qed

lemma is_poly_factors:
  "is_poly (Suc (length as)) (\<lambda>x. prod_list (map (\<lambda>a. (x - a) * c a) as))"
proof (induction as)
  case Nil
  then show ?case using is_poly_const[of 0 1] by simp
next
  case (Cons a as)
  then show ?case
    using is_poly_linear[of "Suc (length as)" "\<lambda>x. prod_list (map (\<lambda>a. (x - a) * c a) as)" a "c a"]
    by (simp add: mult.assoc)
qed

lemma is_poly_basis:
  assumes "xm \<in> set xs"
  shows "is_poly (length xs) (basis xs xm)"
proof -
  let ?as = "filter (\<lambda>xl. xl \<noteq> xm) xs"
  have "length ?as < length xs"
    using assms by (simp add: length_filter_less)
  then have "Suc (length ?as) \<le> length xs" by simp
  moreover have "basis xs xm = (\<lambda>x. prod_list (map (\<lambda>a. (x - a) * inverse (xm - a)) ?as))"
    by (rule ext) (simp add: basis_def divide_inverse)
  ultimately show ?thesis
    using is_poly_factors[of ?as "\<lambda>a. inverse (xm - a)"] is_poly_mono by metis
qed

lemma is_poly_interpolate: "is_poly (length pts) (interpolate pts)"
proof -
  have "\<forall>p \<in> set pts. is_poly (length pts) (\<lambda>x. snd p * basis (map fst pts) (fst p) x)"
  proof
    fix p assume "p \<in> set pts"
    then have "fst p \<in> set (map fst pts)" by simp
    from is_poly_basis[OF this] show "is_poly (length pts) (\<lambda>x. snd p * basis (map fst pts) (fst p) x)"
      using is_poly_scale by fastforce
  qed
  from is_poly_sum_list[OF this]
  show ?thesis
    by (simp add: interpolate_def[abs_def] case_prod_unfold)
qed

text \<open>
  The interpolation takes the given values at the given points.
\<close>

lemma basis_same: "basis xs xm xm = 1"
  unfolding basis_def by (induction xs) simp_all

lemma basis_other: "x \<in> set xs \<Longrightarrow> x \<noteq> xm \<Longrightarrow> basis xs xm x = 0"
  unfolding basis_def by (induction xs) auto

lemma sum_delta_absent:
  fixes pts :: "('a::field \<times> 'a) list"
  shows "a \<notin> fst ` set pts \<Longrightarrow>
   sum_list (map (\<lambda>p. snd p * (if fst p = a then 1 else 0)) pts) = 0"
  by (induction pts) auto

lemma sum_delta:
  fixes pts :: "('a::field \<times> 'a) list"
  shows "distinct (map fst pts) \<Longrightarrow> (a, b) \<in> set pts \<Longrightarrow>
   sum_list (map (\<lambda>p. snd p * (if fst p = a then 1 else 0)) pts) = b"
proof (induction pts)
  case Nil
  then show ?case by simp
next
  case (Cons p pts)
  show ?case
  proof (cases "p = (a, b)")
    case True
    then have "a \<notin> fst ` set pts" using Cons.prems(1) by auto
    from sum_delta_absent[OF this] show ?thesis using True by simp
  next
    case False
    then have in': "(a, b) \<in> set pts" using Cons.prems(2) by auto
    then have "fst p \<noteq> a" using Cons.prems(1) by (auto simp: image_iff)
    then show ?thesis using Cons.IH in' Cons.prems(1) by simp
  qed
qed

lemma interpolate_at:
  assumes "distinct (map fst pts)" and "(a, b) \<in> set pts"
  shows "interpolate pts a = b"
proof -
  have a: "a \<in> set (map fst pts)" using assms(2) by (force simp: image_iff)
  have "map (\<lambda>(xm, ym). ym * basis (map fst pts) xm a) pts
        = map (\<lambda>p. snd p * (if fst p = a then 1 else 0)) pts"
  proof (rule map_cong[OF refl])
    fix p assume "p \<in> set pts"
    show "(case p of (xm, ym) \<Rightarrow> ym * basis (map fst pts) xm a) = snd p * (if fst p = a then 1 else 0)"
      using basis_same[of "map fst pts" a] basis_other[OF a, of "fst p"]
      by (cases p) auto
  qed
  then have "interpolate pts a = sum_list (map (\<lambda>p. snd p * (if fst p = a then 1 else 0)) pts)"
    unfolding interpolate_def by (rule arg_cong)
  with sum_delta[OF assms] show ?thesis by simp
qed

text \<open>
  Uniqueness, and its consequence for the code: interpolating through as many samples
  of an interpolation as it has points, taken at distinct places, gives it back.
\<close>

lemma poly_unique:
  assumes "is_poly n f" and "is_poly n g" and "distinct rs" and "n \<le> length rs"
      and "\<forall>r \<in> set rs. f r = g r"
  shows "f x = g x"
proof -
  have "is_poly n (\<lambda>x. f x + (- 1) * g x)"
    using is_poly_add[OF assms(1) is_poly_scale[OF assms(2), of "- 1"]] .
  then obtain cs where cs: "length cs \<le> n" "\<forall>x. f x + (- 1) * g x = peval cs x"
    unfolding is_poly_def by blast
  have "\<forall>r \<in> set rs. peval cs r = 0"
    using assms(5) cs(2) by (metis add.right_inverse mult_minus1)
  from roots_zero[OF _ assms(3) this, of x] cs(1) assms(4)
  have "peval cs x = 0" by simp
  then have "f x + (- 1) * g x = 0" using cs(2) by simp
  then show ?thesis by simp
qed

lemma interpolate_resample:
  assumes "distinct (map fst pts)" and "distinct rs" and "length pts \<le> length rs"
  shows "interpolate (map (\<lambda>r. (r, interpolate pts r)) rs) x = interpolate pts x"
proof -
  let ?q = "map (\<lambda>r. (r, interpolate pts r)) rs"
  have fst: "map fst ?q = rs" by (simp add: comp_def)
  have "\<forall>r \<in> set rs. interpolate ?q r = interpolate pts r"
    using interpolate_at[of ?q] assms(2) fst by (simp add: image_iff)
  moreover have "is_poly (length rs) (interpolate ?q)"
    using is_poly_interpolate[of ?q] by simp
  moreover have "is_poly (length rs) (interpolate pts)"
    using is_poly_interpolate[of pts] assms(3) is_poly_mono by blast
  ultimately show ?thesis
    using poly_unique[of "length rs" "interpolate ?q" "interpolate pts" rs x] assms(2) by simp
qed

text \<open>
  Lists: steps that all succeed, the rows of a stripe, the stripes of a stream, the
  chunks of a piece, the shares that \<open>Decode\<close> chooses.
\<close>

lemma all_results_Inr:
  "\<forall>x \<in> set xs. f x = Inr (g x) \<Longrightarrow> all_results (map f xs) = Inr (map g xs)"
  by (induction xs) simp_all

lemma rows_concat:
  "k * s \<le> length xs \<Longrightarrow>
   concat (map (\<lambda>b. map (\<lambda>j. xs ! (b * s + j)) [0..<s]) [0..<k]) = take (k * s) xs"
proof (induction k)
  case 0
  then show ?case by simp
next
  case (Suc k)
  have le: "k * s + s \<le> length xs" using Suc.prems by (simp add: algebra_simps)
  have "map (\<lambda>j. xs ! (k * s + j)) [0..<s] = take s (drop (k * s) xs)"
    using le by (intro nth_equalityI) (simp_all)
  moreover have "concat (map (\<lambda>b. map (\<lambda>j. xs ! (b * s + j)) [0..<s]) [0..<k]) = take (k * s) xs"
    using Suc.IH le by simp
  moreover have "take (Suc k * s) xs = take (k * s) xs @ take s (drop (k * s) xs)"
    by (metis take_add mult_Suc add.commute)
  ultimately show ?case
    by simp
qed

lemma stripes_concat:
  "concat (map (\<lambda>t. take w (drop (t * w) data)) [0..<m]) = take (m * w) data"
proof (induction m)
  case 0
  then show ?case by simp
next
  case (Suc m)
  have "take (Suc m * w) data = take (m * w) data @ take w (drop (m * w) data)"
    by (metis take_add mult_Suc add.commute)
  then show ?case using Suc by simp
qed

lemma chunk_of_concat:
  "\<forall>ys \<in> set yss. length ys = s \<Longrightarrow> t < length yss \<Longrightarrow>
   take s (drop (t * s) (concat yss)) = yss ! t"
proof (induction yss arbitrary: t)
  case Nil
  then show ?case by simp
next
  case (Cons ys yss)
  show ?case
  proof (cases t)
    case 0
    then show ?thesis using Cons.prems by simp
  next
    case (Suc t')
    then show ?thesis using Cons.prems Cons.IH[of t'] by simp
  qed
qed

lemma pairs_of_fst:
  "\<forall>p \<in> set ps. snd p = g (fst p) \<Longrightarrow> ps = map (\<lambda>i. (i, g i)) (map fst ps)"
  by (induction ps) (auto simp: prod_eq_iff)

lemma chosen_shares:
  fixes g :: "nat \<Rightarrow> 'b" and idxs :: "nat list" and k :: nat
  assumes "distinct idxs" and "k \<le> length idxs"
  defines "chosen \<equiv> take k (sort_key fst (map (\<lambda>i. (i, g i)) idxs))"
  shows "chosen = map (\<lambda>i. (i, g i)) (map fst chosen)"
    and "distinct (map fst chosen)"
    and "set (map fst chosen) \<subseteq> set idxs"
    and "length chosen = k"
proof -
  let ?shares = "map (\<lambda>i. (i, g i)) idxs"
  let ?sorted = "sort_key fst ?shares"
  have sub: "set chosen \<subseteq> set ?shares"
    unfolding chosen_def using set_take_subset[of k ?sorted] by simp
  then have "\<forall>p \<in> set chosen. snd p = g (fst p)" by auto
  from pairs_of_fst[OF this] show "chosen = map (\<lambda>i. (i, g i)) (map fst chosen)" .
  have "map fst ?shares = idxs" by (simp add: comp_def)
  then have "distinct (map fst ?shares)" using assms(1) by simp
  then have "distinct ?shares \<and> inj_on fst (set ?shares)" by (simp only: distinct_map)
  then have "distinct ?sorted \<and> inj_on fst (set ?sorted)" by simp
  then have "distinct (map fst ?sorted)" by (simp only: distinct_map)
  then have "distinct (take k (map fst ?sorted))" by (rule distinct_take)
  then show "distinct (map fst chosen)" by (simp add: chosen_def take_map)
  show "set (map fst chosen) \<subseteq> set idxs" using sub by auto
  show "length chosen = k" using assms(2) by (simp add: chosen_def)
qed

text \<open>
  One stripe: the codeword of a position has the stripe's symbols at the first \<open>k\<close>
  points, it is recovered from its values at any \<open>k\<close> distinct points of the scheme, and
  so \<open>Decode\<close> returns the stripe from any \<open>k\<close> or more distinct shares of its encoding.
\<close>

lemma codeword_at_point:
  assumes "distinct (es_points es)" and "es_required es \<le> TotalCount_es es"
      and "b < es_required es"
  shows "codeword es stripe j (es_points es ! b) = stripe ! (b * es_shareSize es + j)"
proof -
  let ?P = "map (\<lambda>m. (es_points es ! m, stripe ! (m * es_shareSize es + j))) [0..<es_required es]"
  have "map fst ?P = take (es_required es) (es_points es)"
    using assms(2) by (intro nth_equalityI) (simp_all add: TotalCount_es_def)
  then have "distinct (map fst ?P)" using assms(1) by simp
  moreover have "(es_points es ! b, stripe ! (b * es_shareSize es + j)) \<in> set ?P"
    using assms(3) by (auto simp: image_iff intro!: bexI[of _ b])
  ultimately show ?thesis
    unfolding codeword_def by (rule interpolate_at)
qed

lemma codeword_resample:
  assumes "distinct (es_points es)" and "es_required es \<le> TotalCount_es es"
      and "distinct I" and "\<forall>i \<in> set I. i < TotalCount_es es" and "length I = es_required es"
  shows "interpolate (map (\<lambda>i. (es_points es ! i, codeword es stripe j (es_points es ! i))) I) x
         = codeword es stripe j x"
proof -
  let ?P = "map (\<lambda>m. (es_points es ! m, stripe ! (m * es_shareSize es + j))) [0..<es_required es]"
  let ?rs = "map (nth (es_points es)) I"
  have "map fst ?P = take (es_required es) (es_points es)"
    using assms(2) by (intro nth_equalityI) (simp_all add: TotalCount_es_def)
  then have d1: "distinct (map fst ?P)" using assms(1) by simp
  have "inj_on (nth (es_points es)) (set I)"
    using assms(1,4) by (intro inj_on_nth) (simp_all add: TotalCount_es_def)
  then have d2: "distinct ?rs" using assms(3) by (simp add: distinct_map)
  have len: "length ?P \<le> length ?rs" using assms(5) by simp
  have "map (\<lambda>i. (es_points es ! i, codeword es stripe j (es_points es ! i))) I
        = map (\<lambda>r. (r, interpolate ?P r)) ?rs"
    by (simp add: codeword_def comp_def)
  then have "interpolate (map (\<lambda>i. (es_points es ! i, codeword es stripe j (es_points es ! i))) I) x
        = interpolate (map (\<lambda>r. (r, interpolate ?P r)) ?rs) x"
    by (rule arg_cong)
  also have "\<dots> = interpolate ?P x"
    by (rule interpolate_resample[OF d1 d2 len])
  finally show ?thesis
    by (simp add: codeword_def)
qed

lemma encode_stripe_nth:
  "i < TotalCount_es es \<Longrightarrow>
   encode_stripe es stripe ! i =
     map (\<lambda>j. codeword es stripe j (es_points es ! i)) [0..<es_shareSize es]"
  by (simp add: encode_stripe_def)

lemma decode_encode_stripe:
  assumes "distinct (es_points es)" and "es_required es \<le> TotalCount_es es"
      and "length stripe = StripeSize es"
      and "distinct idxs" and "\<forall>i \<in> set idxs. i < TotalCount_es es"
      and "es_required es \<le> length idxs"
  shows "Decode es (map (\<lambda>i. (i, encode_stripe es stripe ! i)) idxs) = Inr stripe"
proof -
  let ?g = "\<lambda>i. encode_stripe es stripe ! i"
  define chosen where "chosen = take (es_required es) (sort_key fst (map (\<lambda>i. (i, ?g i)) idxs))"
  define I where "I = map fst chosen"
  have ch: "chosen = map (\<lambda>i. (i, ?g i)) I" and dI: "distinct I" and sI: "set I \<subseteq> set idxs"
    and lc: "length chosen = es_required es"
    using chosen_shares[OF assms(4,6), of ?g] unfolding chosen_def I_def by blast+
  have inI: "\<forall>i \<in> set I. i < TotalCount_es es" using sI assms(5) by blast
  have lI: "length I = es_required es" using lc by (simp add: I_def)
  have valid: "list_all (valid_share es) chosen"
    using inI by (subst ch) (simp add: list_all_iff valid_share_def encode_stripe_nth)
  have cell: "interpolate (map (\<lambda>(i, sh). (es_points es ! i, sh ! j)) chosen) (es_points es ! b)
              = stripe ! (b * es_shareSize es + j)"
    if "b < es_required es" and "j < es_shareSize es" for b j
  proof -
    have "map (\<lambda>(i, sh). (es_points es ! i, sh ! j)) chosen
          = map (\<lambda>i. (es_points es ! i, codeword es stripe j (es_points es ! i))) I"
      using inI that(2) by (subst ch) (simp add: encode_stripe_nth)
    then show ?thesis
      using codeword_resample[OF assms(1,2) dI inI lI, of stripe j "es_points es ! b"]
            codeword_at_point[OF assms(1,2) that(1), of stripe j]
      by simp
  qed
  have "decode_stripe es chosen =
        concat (map (\<lambda>b. map (\<lambda>j. stripe ! (b * es_shareSize es + j)) [0..<es_shareSize es])
                  [0..<es_required es])"
    unfolding decode_stripe_def
    by (intro arg_cong[of _ _ concat] map_cong refl) (simp add: cell)
  also have "\<dots> = take (es_required es * es_shareSize es) stripe"
    using assms(3) by (intro rows_concat) (simp add: StripeSize_def)
  also have "\<dots> = stripe" using assms(3) by (simp add: StripeSize_def)
  finally have "decode_stripe es chosen = stripe" .
  then show ?thesis
    using valid assms(6) by (simp add: Decode_def Let_def chosen_def[symmetric])
qed

text \<open>
  Streams: every stripe of a stream has the stripe size, and the stripes of a stream
  that is a whole number of stripes make up the stream.
\<close>

lemma length_stripes_of:
  "st \<in> set (stripes_of w data) \<Longrightarrow> length st = w"
proof -
  assume "st \<in> set (stripes_of w data)"
  then obtain t where t: "t < length data div w" "st = take w (drop (t * w) data)"
    by (auto simp: stripes_of_def)
  have "0 < w" using t(1) by (cases w) simp_all
  have "Suc t * w \<le> (length data div w) * w" using t(1) by (intro mult_le_mono1) simp
  also have "\<dots> \<le> length data" by simp
  finally have "t * w + w \<le> length data" by (simp add: add.commute)
  then show ?thesis using t(2) by simp
qed

lemma concat_stripes_of:
  "length data mod w = 0 \<Longrightarrow> concat (stripes_of w data) = data"
  unfolding stripes_of_def stripes_concat
  by (simp add: mod_0_imp_dvd)

lemma length_encode_share:
  "i < TotalCount_es es \<Longrightarrow> length (encode_stripe es stripe ! i) = es_shareSize es"
  by (simp add: encode_stripe_nth)

text \<open>
  C3. For every scheme \<open>(k, n)\<close> with \<open>k \<le> n\<close>, \<open>n\<close> distinct points of the field and a
  share size \<open>s\<close>, and every stream of whole stripes: \<^verbatim>\<open>EncodeReader\<close> succeeds with \<open>n\<close>
  pieces, and \<^verbatim>\<open>DecodeReaders\<close> on any choice of at least \<open>k\<close> of the pieces, under their
  distinct indices in any order, returns the stream.
\<close>

theorem erasure_round_trip:
  fixes es :: "'a::field rsScheme"
  assumes "distinct (es_points es)"
      and "es_required es \<le> TotalCount_es es"
      and "length data mod StripeSize es = 0"
      and "distinct idxs" and "\<forall>i \<in> set idxs. i < TotalCount_es es"
      and "es_required es \<le> length idxs"
  shows "\<exists>pieces. EncodeReader es data = Inr pieces \<and> length pieces = TotalCount_es es \<and>
           DecodeReaders es (map (\<lambda>i. (i, pieces ! i)) idxs) (length data) = Inr data"
proof -
  let ?w = "StripeSize es" and ?s = "es_shareSize es" and ?n = "TotalCount_es es"
  let ?stripes = "stripes_of ?w data"
  let ?encoded = "map (encode_stripe es) ?stripes"
  let ?pieces = "map (\<lambda>i. concat (map (\<lambda>shares. shares ! i) ?encoded)) [0..<?n]"
  have m: "length ?stripes = length data div ?w" by (simp add: stripes_of_def)
  have "all_results (map (Encode es) ?stripes) = Inr ?encoded"
    by (intro all_results_Inr) (simp add: Encode_def length_stripes_of)
  then have enc: "EncodeReader es data = Inr ?pieces"
    using assms(3) by (simp add: EncodeReader_def)
  have chunk: "shares_at ?s t (map (\<lambda>i. (i, ?pieces ! i)) idxs)
               = map (\<lambda>i. (i, encode_stripe es (?stripes ! t) ! i)) idxs"
    if "t < length data div ?w" for t
  proof -
    have "take ?s (drop (t * ?s) (?pieces ! i)) = encode_stripe es (?stripes ! t) ! i"
      if "i \<in> set idxs" for i
    proof -
      have i: "i < ?n" using that assms(5) by blast
      have "?pieces ! i = concat (map (\<lambda>st. encode_stripe es st ! i) ?stripes)"
        using i by (simp add: comp_def)
      moreover have "take ?s (drop (t * ?s) (concat (map (\<lambda>st. encode_stripe es st ! i) ?stripes)))
                     = map (\<lambda>st. encode_stripe es st ! i) ?stripes ! t"
        using i \<open>t < length data div ?w\<close> m
        by (intro chunk_of_concat) (auto simp: length_encode_share)
      ultimately show ?thesis using \<open>t < length data div ?w\<close> m by simp
    qed
    then show ?thesis by (simp add: shares_at_def)
  qed
  have "all_results (map (\<lambda>t. Decode es (shares_at ?s t (map (\<lambda>i. (i, ?pieces ! i)) idxs)))
                       [0..<length data div ?w])
        = Inr (map (\<lambda>t. ?stripes ! t) [0..<length data div ?w])"
  proof (intro all_results_Inr ballI)
    fix t assume "t \<in> set [0..<length data div ?w]"
    then have t: "t < length data div ?w" by simp
    then have "length (?stripes ! t) = ?w"
      using m by (intro length_stripes_of[of _ ?w data]) simp
    from decode_encode_stripe[OF assms(1,2) this assms(4,5,6)] chunk[OF t]
    show "Decode es (shares_at ?s t (map (\<lambda>i. (i, ?pieces ! i)) idxs)) = Inr (?stripes ! t)"
      by simp
  qed
  moreover have "map (\<lambda>t. ?stripes ! t) [0..<length data div ?w] = ?stripes"
    using m map_nth[of ?stripes] by simp
  ultimately have "DecodeReaders es (map (\<lambda>i. (i, ?pieces ! i)) idxs) (length data) = Inr data"
    using assms(3) by (simp add: DecodeReaders_def concat_stripes_of)
  moreover have "length ?pieces = ?n" by simp
  ultimately show ?thesis using enc by blast
qed

text \<open>
  A \<open>(2, 4)\<close> scheme with share size 2 over the integers modulo 5, on a stream of two
  stripes: the four pieces, and the stream decoded from pieces 3 and 1.
\<close>

lemma encoded_stream:
  "EncodeReader rs_2_4 sample_stream =
     Inr [[F1, F2, F4, F0], [F3, F4, F2, F2], [F0, F1, F0, F4], [F2, F3, F3, F1]]"
  by code_simp

theorem erasure_round_trip_witness:
  "distinct (es_points rs_2_4) \<and> es_required rs_2_4 \<le> TotalCount_es rs_2_4 \<and>
   length sample_stream mod StripeSize rs_2_4 = 0 \<and>
   EncodeReader rs_2_4 sample_stream =
     Inr [[F1, F2, F4, F0], [F3, F4, F2, F2], [F0, F1, F0, F4], [F2, F3, F3, F1]] \<and>
   DecodeReaders rs_2_4 [(3, [F2, F3, F3, F1]), (1, [F3, F4, F2, F2])] 8 = Inr sample_stream"
proof -
  have h: "distinct (es_points rs_2_4)" "es_required rs_2_4 \<le> TotalCount_es rs_2_4"
          "length sample_stream mod StripeSize rs_2_4 = 0"
          "distinct [3, 1::nat]" "\<forall>i \<in> set [3, 1]. i < TotalCount_es rs_2_4"
          "es_required rs_2_4 \<le> length [3, 1::nat]"
    by (simp_all add: rs_2_4_def TotalCount_es_def StripeSize_def sample_stream_def)
  have l: "length sample_stream = 8" by (simp add: sample_stream_def)
  show ?thesis
    using erasure_round_trip[OF h] h(1,2,3) encoded_stream l by simp
qed

section \<open>Properties of the erasure scheme's \<^verbatim>\<open>Correct\<close>\<close>

text \<open>
  The choice among the candidates: it is one of them, and none agrees with more
  provided shares.
\<close>

lemma most_agreeing_in: "most_agreeing f b xs \<in> set (b # xs)"
  by (induction xs arbitrary: b) (auto split: if_splits)

lemma most_agreeing_ge: "f b \<le> f (most_agreeing f b xs)"
proof (induction xs arbitrary: b)
  case Nil
  then show ?case by simp
next
  case (Cons x xs)
  have "f b \<le> f (if f b < f x then x else b)" by simp
  also have "\<dots> \<le> f (most_agreeing f (if f b < f x then x else b) xs)" by (rule Cons.IH)
  finally show ?case by simp
qed

lemma most_agreeing_max: "y \<in> set (b # xs) \<Longrightarrow> f y \<le> f (most_agreeing f b xs)"
proof (induction xs arbitrary: b)
  case Nil
  then show ?case by simp
next
  case (Cons x xs)
  show ?case
  proof (cases "y = b")
    case True
    then show ?thesis using most_agreeing_ge[of f b "x # xs"] by simp
  next
    case False
    then have "y \<in> set ((if f b < f x then x else b) # xs) \<or> (y = x \<and> \<not> f b < f x)"
      using Cons.prems by auto
    then show ?thesis
    proof
      assume "y \<in> set ((if f b < f x then x else b) # xs)"
      from Cons.IH[OF this] show ?thesis by simp
    next
      assume a: "y = x \<and> \<not> f b < f x"
      then have "f y \<le> f b" by simp
      also have "\<dots> \<le> f (most_agreeing f b (x # xs))" by (rule most_agreeing_ge)
      finally show ?thesis .
    qed
  qed
qed

text \<open>
  Sublists: the first \<open>k\<close> of the shares that satisfy a condition are a choice of
  \<open>k\<close> shares, and a choice of shares has distinct numbers when the shares have.
\<close>

lemma Nil_in_subseqs: "[] \<in> set (subseqs xs)"
  by (induction xs) (simp_all add: Let_def)

lemma take_filter_in_subseqs: "take k (filter P xs) \<in> set (subseqs xs)"
proof (induction xs arbitrary: k)
  case Nil
  then show ?case by simp
next
  case (Cons x xs)
  show ?case
  proof (cases "P x")
    case True
    show ?thesis
    proof (cases k)
      case 0
      then show ?thesis using Nil_in_subseqs[of "x # xs"] by simp
    next
      case (Suc k')
      then show ?thesis using True Cons.IH[of k'] by (simp add: Let_def)
    qed
  next
    case False
    then show ?thesis using Cons.IH[of k] by (simp add: Let_def)
  qed
qed

lemma subseqs_subset: "sub \<in> set (subseqs xs) \<Longrightarrow> set sub \<subseteq> set xs"
  using subseqs_powset[of xs] by blast

lemma subseqs_distinct_map:
  "sub \<in> set (subseqs xs) \<Longrightarrow> distinct (map f xs) \<Longrightarrow> distinct (map f sub)"
proof (induction xs arbitrary: sub)
  case Nil
  then show ?case by simp
next
  case (Cons x xs)
  from Cons.prems(1) consider (a) sub' where "sub = x # sub'" "sub' \<in> set (subseqs xs)"
    | (b) "sub \<in> set (subseqs xs)"
    by (auto simp: Let_def)
  then show ?case
  proof cases
    case a
    have "distinct (map f sub')" using Cons.IH[OF a(2)] Cons.prems(2) by simp
    moreover have "f x \<notin> f ` set sub'"
      using subseqs_subset[OF a(2)] Cons.prems(2) by auto
    ultimately show ?thesis using a(1) by simp
  next
    case b
    then show ?thesis using Cons.IH Cons.prems(2) by simp
  qed
qed

text \<open>
  A stripe decoded from \<open>k\<close> valid shares with distinct numbers has those shares in its
  encoding, and two stripes whose encodings have \<open>k\<close> shares in common are equal.
\<close>

lemma length_rows:
  "length (concat (map (\<lambda>b. map (g b) [0..<s]) [0..<k])) = k * s"
  by (induction k) simp_all

lemma nth_rows:
  "b < k \<Longrightarrow> j < s \<Longrightarrow> concat (map (\<lambda>b. map (g b) [0..<s]) [0..<k]) ! (b * s + j) = g b j"
proof (induction k)
  case 0
  then show ?case by simp
next
  case (Suc k)
  show ?case
  proof (cases "b < k")
    case True
    then have "Suc b * s \<le> k * s" by (intro mult_le_mono1) simp
    then have "b * s + j < k * s" using Suc.prems(2) by simp
    then show ?thesis using Suc.IH[OF True Suc.prems(2)] by (simp add: nth_append length_rows)
  next
    case False
    then have "b = k" using Suc.prems(1) by simp
    then show ?thesis using Suc.prems(2) by (simp add: nth_append length_rows)
  qed
qed

lemma decode_stripe_codeword:
  assumes "distinct (es_points es)" and "es_required es \<le> TotalCount_es es"
      and "length sub = es_required es" and "distinct (map fst sub)"
      and "\<forall>p \<in> set sub. fst p < TotalCount_es es"
      and "j < es_shareSize es"
  shows "codeword es (decode_stripe es sub) j x =
         interpolate (map (\<lambda>(i, sh). (es_points es ! i, sh ! j)) sub) x"
proof -
  let ?Q = "map (\<lambda>(i, sh). (es_points es ! i, sh ! j)) sub"
  let ?rs = "map (nth (es_points es)) [0..<es_required es]"
  have st: "decode_stripe es sub ! (m * es_shareSize es + j) = interpolate ?Q (es_points es ! m)"
    if "m < es_required es" for m
    using nth_rows[OF that assms(6), of "\<lambda>b j. interpolate (map (\<lambda>(i, sh). (es_points es ! i, sh ! j)) sub)
                                               (es_points es ! b)"]
    by (simp add: decode_stripe_def)
  have "map (\<lambda>m. (es_points es ! m, decode_stripe es sub ! (m * es_shareSize es + j))) [0..<es_required es]
        = map (\<lambda>r. (r, interpolate ?Q r)) ?rs"
    using st by (simp add: comp_def)
  then have "codeword es (decode_stripe es sub) j x = interpolate (map (\<lambda>r. (r, interpolate ?Q r)) ?rs) x"
    unfolding codeword_def by (rule arg_cong[where f = "\<lambda>l. interpolate l x"])
  also have "\<dots> = interpolate ?Q x"
  proof (rule interpolate_resample)
    have e: "map fst ?Q = map (nth (es_points es)) (map fst sub)"
      by (simp add: comp_def case_prod_unfold)
    have "inj_on (nth (es_points es)) (set (map fst sub))"
      using assms(1,5) by (intro inj_on_nth) (auto simp: TotalCount_es_def)
    then have "distinct (map (nth (es_points es)) (map fst sub))"
      using assms(4) by (subst distinct_map) simp
    then show "distinct (map fst ?Q)" unfolding e .
    have "?rs = take (es_required es) (es_points es)"
      using assms(2) by (intro nth_equalityI) (simp_all add: TotalCount_es_def)
    then show "distinct ?rs" using assms(1) by simp
    show "length ?Q \<le> length ?rs" using assms(3) by simp
  qed
  finally show ?thesis .
qed

lemma decode_stripe_reencodes:
  assumes "distinct (es_points es)" and "es_required es \<le> TotalCount_es es"
      and "length sub = es_required es" and "distinct (map fst sub)"
      and "\<forall>p \<in> set sub. valid_share es p"
      and "(i, sh) \<in> set sub"
  shows "encode_stripe es (decode_stripe es sub) ! i = sh"
proof -
  have v: "\<forall>p \<in> set sub. fst p < TotalCount_es es"
    using assms(5) by (auto simp: valid_share_def)
  have i: "i < TotalCount_es es" and l: "length sh = es_shareSize es"
    using assms(5,6) by (auto simp: valid_share_def)
  have d: "distinct (map fst (map (\<lambda>(i, sh). (es_points es ! i, sh ! j)) sub))" for j
  proof -
    have e: "map fst (map (\<lambda>(i, sh). (es_points es ! i, sh ! j)) sub) = map (nth (es_points es)) (map fst sub)"
      by (simp add: comp_def case_prod_unfold)
    have "inj_on (nth (es_points es)) (set (map fst sub))"
      using assms(1) v by (intro inj_on_nth) (auto simp: TotalCount_es_def)
    then have "distinct (map (nth (es_points es)) (map fst sub))"
      using assms(4) by (subst distinct_map) simp
    then show ?thesis unfolding e .
  qed
  have "codeword es (decode_stripe es sub) j (es_points es ! i) = sh ! j" if "j < es_shareSize es" for j
  proof -
    have "(es_points es ! i, sh ! j) \<in> set (map (\<lambda>(i, sh). (es_points es ! i, sh ! j)) sub)"
      using assms(6) by (force simp: image_iff)
    from interpolate_at[OF d this] show ?thesis
      using decode_stripe_codeword[OF assms(1-4) v that] by simp
  qed
  then have "map (\<lambda>j. codeword es (decode_stripe es sub) j (es_points es ! i)) [0..<es_shareSize es]
             = map (\<lambda>j. sh ! j) [0..<es_shareSize es]"
    by simp
  also have "\<dots> = sh" using l map_nth[of sh] by simp
  finally show ?thesis using i by (simp add: encode_stripe_nth)
qed

lemma length_decode_stripe: "length (decode_stripe es sub) = StripeSize es"
  by (simp add: decode_stripe_def length_rows StripeSize_def)

lemma stripes_equal:
  assumes "distinct (es_points es)" and "es_required es \<le> TotalCount_es es"
      and "length st = StripeSize es" and "length st' = StripeSize es"
      and "distinct I" and "\<forall>i \<in> set I. i < TotalCount_es es" and "es_required es \<le> length I"
      and "\<forall>i \<in> set I. encode_stripe es st ! i = encode_stripe es st' ! i"
  shows "st = st'"
proof (rule nth_equalityI)
  show "length st = length st'" using assms(3,4) by simp
next
  fix idx assume idx: "idx < length st"
  let ?s = "es_shareSize es" and ?k = "es_required es"
  have s0: "0 < ?s" using idx assms(3) by (cases ?s) (simp_all add: StripeSize_def)
  define b j where "b = idx div ?s" and "j = idx mod ?s"
  have j: "j < ?s" using s0 by (simp add: j_def)
  have b: "b < ?k"
    using idx assms(3) s0 by (simp add: b_def StripeSize_def less_mult_imp_div_less)
  have split: "idx = b * ?s + j" by (simp add: b_def j_def)
  have agree: "codeword es st j (es_points es ! i) = codeword es st' j (es_points es ! i)"
    if "i \<in> set I" for i
  proof -
    have i: "i < TotalCount_es es" using that assms(6) by blast
    have "encode_stripe es st ! i ! j = encode_stripe es st' ! i ! j"
      using assms(8) that by simp
    then show ?thesis using i j by (simp add: encode_stripe_nth)
  qed
  have p1: "is_poly ?k (codeword es st j)" and p2: "is_poly ?k (codeword es st' j)"
    using is_poly_interpolate[of "map (\<lambda>m. (es_points es ! m, st ! (m * ?s + j))) [0..<?k]"]
          is_poly_interpolate[of "map (\<lambda>m. (es_points es ! m, st' ! (m * ?s + j))) [0..<?k]"]
    by (simp_all add: codeword_def[abs_def])
  have "inj_on (nth (es_points es)) (set I)"
    using assms(1,6) by (intro inj_on_nth) (simp_all add: TotalCount_es_def)
  then have d: "distinct (map (nth (es_points es)) I)" using assms(5) by (simp add: distinct_map)
  have "codeword es st j (es_points es ! b) = codeword es st' j (es_points es ! b)"
    by (rule poly_unique[OF p1 p2 d]) (use assms(7) agree in auto)
  then show "st ! idx = st' ! idx"
    using codeword_at_point[OF assms(1,2) b, of st j] codeword_at_point[OF assms(1,2) b, of st' j] split
    by simp
qed

text \<open>
  \<^verbatim>\<open>Correct\<close> finds the original. If, among the provided shares, those that are shares
  of the encoding of a stripe outnumber the others by \<open>k\<close> or more, every other
  candidate agrees with fewer provided shares than that stripe: the stripe is the one
  chosen, and the output is its encoding.
\<close>

lemma filter_split_length:
  "length (filter P xs) \<le> length (filter (\<lambda>x. P x \<and> Q x) xs) + length (filter (\<lambda>x. \<not> Q x) xs)"
  by (induction xs) auto

lemma original_stripe_found:
  fixes es :: "'a::field rsScheme"
  assumes pts: "distinct (es_points es)" and kn: "es_required es \<le> TotalCount_es es"
      and valid: "\<forall>p \<in> set prov. valid_share es p" and dist: "distinct (map fst prov)"
      and len: "length st = StripeSize es"
      and enough: "length (filter (\<lambda>p. encode_stripe es st ! fst p \<noteq> snd p) prov) + es_required es
                   \<le> length (filter (\<lambda>p. encode_stripe es st ! fst p = snd p) prov)"
  shows "original_stripe (agreement es prov) (candidates es prov) = Some st"
proof -
  let ?k = "es_required es"
  let ?good = "\<lambda>p. encode_stripe es st ! fst p = snd p"
  let ?G = "filter ?good prov" and ?B = "filter (\<lambda>p. \<not> ?good p) prov"
  let ?f = "agreement es prov"
  have f_def: "?f c = length (filter (\<lambda>p. encode_stripe es c ! fst p = snd p) prov)" for c
    by (simp add: agreement_def case_prod_unfold)
  have sub_props: "distinct (map fst sub) \<and> (\<forall>p \<in> set sub. valid_share es p)"
    if "sub \<in> set (subseqs prov)" for sub
    using subseqs_distinct_map[OF that dist] subseqs_subset[OF that] valid by blast
  have same: "c = st"
    if c: "c = decode_stripe es sub" "sub \<in> set (subseqs prov)" "length sub = ?k"
      and agr: "?k \<le> length (filter (\<lambda>p. encode_stripe es c ! fst p = snd p \<and> ?good p) prov)"
    for c sub
  proof -
    let ?A = "filter (\<lambda>p. encode_stripe es c ! fst p = snd p \<and> ?good p) prov"
    let ?I = "map fst (take ?k ?A)"
    have "distinct (map fst ?A)" using dist by (rule distinct_map_filter)
    then have "distinct (take ?k (map fst ?A))" by (rule distinct_take)
    then have dI: "distinct ?I" by (simp add: take_map)
    have inA: "set (take ?k ?A) \<subseteq> set ?A" by (rule set_take_subset)
    have vI: "\<forall>i \<in> set ?I. i < TotalCount_es es"
    proof
      fix i assume "i \<in> set ?I"
      then obtain p where p: "p \<in> set (take ?k ?A)" "i = fst p" by auto
      then have "p \<in> set prov" using inA by auto
      then have "valid_share es p" using valid by blast
      then show "i < TotalCount_es es" using p(2) by (cases p) (simp add: valid_share_def)
    qed
    have lI: "?k \<le> length ?I" using agr by simp
    have eq: "\<forall>i \<in> set ?I. encode_stripe es c ! i = encode_stripe es st ! i"
      using inA by auto
    have "length c = StripeSize es" using c(1) by (simp add: length_decode_stripe)
    from stripes_equal[OF pts kn this len dI vI lI eq] show ?thesis .
  qed
  have st_cand: "st \<in> set (candidates es prov)"
  proof -
    let ?sub = "take ?k ?G"
    have s1: "?sub \<in> set (subseqs prov)" by (rule take_filter_in_subseqs)
    have s2: "length ?sub = ?k" using enough by simp
    have "\<forall>p \<in> set ?sub. encode_stripe es (decode_stripe es ?sub) ! fst p = snd p"
    proof
      fix p assume "p \<in> set ?sub"
      then have "(fst p, snd p) \<in> set ?sub" by simp
      from decode_stripe_reencodes[OF pts kn s2 _ _ this] sub_props[OF s1]
      show "encode_stripe es (decode_stripe es ?sub) ! fst p = snd p" by blast
    qed
    moreover have "\<forall>p \<in> set ?sub. ?good p"
    proof
      fix p assume "p \<in> set ?sub"
      then have "p \<in> set ?G" using set_take_subset[of ?k ?G] by blast
      then show "?good p" unfolding set_filter by blast
    qed
    moreover have "set ?sub \<subseteq> set prov" using subseqs_subset[OF s1] .
    ultimately have ss: "set ?sub \<subseteq> set (filter (\<lambda>p. encode_stripe es (decode_stripe es ?sub) ! fst p = snd p \<and> ?good p) prov)"
      (is "_ \<subseteq> set ?F")
      unfolding set_filter by blast
    have "distinct ?sub" using sub_props[OF s1] by (simp only: distinct_map)
    then have "length ?sub = card (set ?sub)" by (simp only: distinct_card)
    also have "\<dots> \<le> card (set ?F)" using ss by (intro card_mono) simp_all
    also have "\<dots> \<le> length ?F" by (rule card_length)
    finally have "?k \<le> length ?F" unfolding s2 .
    from same[OF refl s1 s2 this] have d: "decode_stripe es ?sub = st" .
    have "?sub \<in> set (filter (\<lambda>sub. length sub = ?k) (subseqs prov))"
      using s1 s2 by (simp only: set_filter mem_Collect_eq)
    then have "decode_stripe es ?sub \<in> decode_stripe es ` set (filter (\<lambda>sub. length sub = ?k) (subseqs prov))"
      by (rule imageI)
    then have "st \<in> decode_stripe es ` set (filter (\<lambda>sub. length sub = ?k) (subseqs prov))"
      unfolding d .
    then show ?thesis unfolding candidates_def set_map .
  qed
  have worse: "?f c < ?f st" if "c \<in> set (candidates es prov)" "c \<noteq> st" for c
  proof -
    from that(1) have "c \<in> decode_stripe es ` set (filter (\<lambda>sub. length sub = ?k) (subseqs prov))"
      unfolding candidates_def set_map .
    then obtain sub where sub: "c = decode_stripe es sub" "sub \<in> set (subseqs prov)" "length sub = ?k"
      unfolding set_filter by blast
    have "\<not> ?k \<le> length (filter (\<lambda>p. encode_stripe es c ! fst p = snd p \<and> ?good p) prov)"
      using same[OF sub] that(2) by blast
    then have "length (filter (\<lambda>p. encode_stripe es c ! fst p = snd p \<and> ?good p) prov) < ?k" by simp
    moreover have "?f c \<le> length (filter (\<lambda>p. encode_stripe es c ! fst p = snd p \<and> ?good p) prov) + length ?B"
      unfolding f_def by (rule filter_split_length)
    ultimately have "?f c < ?k + length ?B" by simp
    also have "\<dots> \<le> length ?G" using enough by simp
    also have "\<dots> = ?f st" by (simp add: f_def)
    finally show ?thesis .
  qed
  from st_cand obtain c cs where cs: "candidates es prov = c # cs"
    by (cases "candidates es prov") auto
  let ?r = "most_agreeing ?f c cs"
  have "?r \<in> set (candidates es prov)" unfolding cs by (rule most_agreeing_in)
  moreover have "?f st \<le> ?f ?r" using st_cand unfolding cs by (rule most_agreeing_max)
  ultimately have "?r = st" using worse[of ?r] by (cases "?r = st") simp_all
  then show ?thesis unfolding cs by simp
qed

lemma correct_provided_reconstructs:
  fixes es :: "'a::field rsScheme"
  assumes "distinct (es_points es)" and "es_required es \<le> TotalCount_es es"
      and "\<forall>c \<in> set shares. 0 \<le> Number c"
      and "\<forall>p \<in> set prov. valid_share es p" and "distinct (map fst prov)"
      and "length st = StripeSize es"
      and "length (filter (\<lambda>p. encode_stripe es st ! fst p \<noteq> snd p) prov) + es_required es
             \<le> length (filter (\<lambda>p. encode_stripe es st ! fst p = snd p) prov)"
  shows "correct_provided es shares prov = Inr (map (reconstructed (encode_stripe es st)) shares)"
  using original_stripe_found[OF assms(1,2,4,5,6,7)] assms(3,4,5)
  by (simp add: correct_provided_def list_all_iff)

text \<open>
  The audit when every share was downloaded, under the erasure scheme's own
  \<^verbatim>\<open>NewFEC\<close> and \<^verbatim>\<open>Correct\<close>: if the shares have distinct piece numbers below \<open>n\<close> and one
  size, and those that are shares of the stripe's encoding outnumber the altered ones
  by \<open>k\<close> or more, \<^verbatim>\<open>auditShares\<close> returns exactly the piece numbers of the altered
  shares, in the order of the shares.
\<close>

lemma altered_map:
  "altered originals (map g originals) =
     Inr [Number (g s). s \<leftarrow> originals, Data s \<noteq> Share_Data (g s)]"
  by (induction originals) simp_all

lemma auditShares_reports_altered_pieces:
  fixes points :: "'a::field list" and originals :: "'a share list"
  defines "es \<equiv> \<lambda>k n sz. \<lparr>es_required = nat k, es_points = take (nat n) points, es_shareSize = sz\<rparr>"
  assumes env: "NewFEC env = NewFEC_over points" "Correct env = FEC_Correct"
      and pts: "distinct points" and kn: "1 \<le> k" "k \<le> n" "n \<le> int (length points)"
      and dl: "\<forall>s \<in> set originals. Error s = None \<and> 0 \<le> PieceNumber s \<and> PieceNumber s < n \<and>
                                     length (Data s) = sz"
      and sz: "0 < sz" and nums: "distinct (map PieceNumber originals)"
      and st: "length st = nat k * sz"
      and enough:
        "length (filter (\<lambda>s. Data s \<noteq> encode_stripe (es k n sz) st ! nat (PieceNumber s)) originals) + nat k
           \<le> length (filter (\<lambda>s. Data s = encode_stripe (es k n sz) st ! nat (PieceNumber s)) originals)"
  shows "auditShares env k n originals =
           Inr [PieceNumber s. s \<leftarrow> originals, Data s \<noteq> encode_stripe (es k n sz) st ! nat (PieceNumber s)]"
proof -
  let ?es = "es k n sz"
  let ?fc = "\<lparr>es_required = nat k, es_points = take (nat n) points, es_shareSize = 0\<rparr>"
  let ?copies = "map copy_share originals"
  let ?prov = "map (\<lambda>s. (nat (PieceNumber s), Data s)) originals"
  let ?enc = "encode_stripe ?es st"
  have newfec: "NewFEC env k n = Inr ?fc"
    using kn by (simp add: env(1) NewFEC_over_def)
  have copies: "?copies = map (\<lambda>s. \<lparr>Number = PieceNumber s, Share_Data = Data s\<rparr>) originals"
    using dl by (intro map_cong refl) (simp add: copy_share_def)
  have "\<forall>c \<in> set ?copies. Share_Data c \<noteq> []"
    unfolding copies using dl sz by auto
  then have nonblank: "filter (\<lambda>c. Share_Data c \<noteq> []) ?copies = ?copies"
    by (simp only: filter_id_conv)
  have prov: "provided ?copies = ?prov"
    unfolding provided_def nonblank unfolding copies by (simp add: comp_def)
  have ne: "originals \<noteq> []" using enough kn(1) by auto
  then obtain s0 rest where o: "originals = s0 # rest" by (cases originals) auto
  have "share_size ?prov = sz" using dl by (simp add: o)
  then have scheme: "?fc\<lparr>es_shareSize := share_size (provided ?copies)\<rparr> = ?es"
    by (simp add: prov es_def)
  have n_len: "TotalCount_es ?es = nat n"
    using kn by (simp add: TotalCount_es_def es_def)
  have a1: "distinct (es_points ?es)" using pts by (simp add: es_def)
  have a2: "es_required ?es \<le> TotalCount_es ?es" using kn by (simp add: n_len) (simp add: es_def)
  have a3: "\<forall>c \<in> set ?copies. 0 \<le> Number c" unfolding copies using dl by simp
  have a4: "\<forall>p \<in> set ?prov. valid_share ?es p"
    using dl kn by (auto simp: valid_share_def n_len) (simp add: es_def)
  have "inj_on nat (set (map PieceNumber originals))"
  proof (rule inj_onI)
    fix x y assume x: "x \<in> set (map PieceNumber originals)" and y: "y \<in> set (map PieceNumber originals)"
      and e: "nat x = nat y"
    have "0 \<le> x" "0 \<le> y" using x y dl by auto
    then show "x = y" using e by simp
  qed
  then have "distinct (map nat (map PieceNumber originals))"
    using nums by (subst distinct_map) simp
  then have a5: "distinct (map fst ?prov)" by (simp add: comp_def)
  have a6: "length st = StripeSize ?es" using st by (simp add: StripeSize_def es_def)
  have a7: "length (filter (\<lambda>p. ?enc ! fst p \<noteq> snd p) ?prov) + es_required ?es
             \<le> length (filter (\<lambda>p. ?enc ! fst p = snd p) ?prov)"
  proof -
    have "length (filter (\<lambda>p. ?enc ! fst p \<noteq> snd p) ?prov)
          = length (filter (\<lambda>s. Data s \<noteq> ?enc ! nat (PieceNumber s)) originals)"
      by (simp add: filter_map comp_def eq_commute)
    moreover have "length (filter (\<lambda>p. ?enc ! fst p = snd p) ?prov)
          = length (filter (\<lambda>s. Data s = ?enc ! nat (PieceNumber s)) originals)"
      by (simp add: filter_map comp_def eq_commute)
    moreover have "es_required ?es = nat k" by (simp add: es_def)
    ultimately show ?thesis using enough by simp
  qed
  have "FEC_Correct ?fc ?copies = correct_provided ?es ?copies ?prov"
    unfolding FEC_Correct_def using scheme prov by simp
  also have "\<dots> = Inr (map (reconstructed ?enc) ?copies)"
    by (rule correct_provided_reconstructs[OF a1 a2 a3 a4 a5 a6 a7])
  also have "map (reconstructed ?enc) ?copies =
             map (\<lambda>s. \<lparr>Number = PieceNumber s, Share_Data = ?enc ! nat (PieceNumber s)\<rparr>) originals"
    unfolding copies using dl n_len
    by (auto simp: reconstructed_def encode_stripe_def TotalCount_es_def)
  finally have "Correct env ?fc ?copies =
      Inr (map (\<lambda>s. \<lparr>Number = PieceNumber s, Share_Data = ?enc ! nat (PieceNumber s)\<rparr>) originals)"
    by (simp add: env(2))
  from auditShares_Correct_ok[OF newfec this] show ?thesis
    by (simp add: altered_map cong: if_cong)
qed

end
